theory Spec2Isabelle
  imports Complex_Main
begin

section \<open>Python strings\<close>

text \<open>
  A Python \<open>str\<close> is a sequence of code points. The model reads a \<^typ>\<open>char\<close> as one
  code point below 256 (ASCII and Latin-1), so \<^typ>\<open>string\<close> covers every \<open>str\<close> made of
  such code points. \<open>str.isspace\<close>, the \<open>\s\<close> class of \<open>re\<close> and the default
  \<open>str.strip()\<close> all use the same whitespace set; below 256 it is
  \<open>0x09..0x0D\<close>, \<open>0x1C..0x20\<close>, \<open>0x85\<close> and \<open>0xA0\<close>.
\<close>

definition is_space :: "char \<Rightarrow> bool" where
  "is_space c =
     (let n = (of_char c :: nat)
      in (9 \<le> n \<and> n \<le> 13) \<or> (28 \<le> n \<and> n \<le> 32) \<or> n = 133 \<or> n = 160)"

definition strip :: "string \<Rightarrow> string" where
  "strip s = rev (dropWhile is_space (rev (dropWhile is_space s)))"

text \<open>\<open>str.lower()\<close> below 256: \<open>A..Z\<close> and the Latin-1 capitals \<open>0xC0..0xDE\<close>
  (without the multiplication sign \<open>0xD7\<close>) move up by 32.\<close>

definition lower_char :: "char \<Rightarrow> char" where
  "lower_char c =
     (let n = (of_char c :: nat)
      in if (65 \<le> n \<and> n \<le> 90) \<or> (192 \<le> n \<and> n \<le> 222 \<and> n \<noteq> 215)
         then char_of (n + 32) else c)"

definition lower :: "string \<Rightarrow> string" where
  "lower s = map lower_char s"

text \<open>Truthiness of an optional string: \<open>None\<close> and \<open>""\<close> are falsy.\<close>

fun truthy :: "string option \<Rightarrow> bool" where
  "truthy None = False"
| "truthy (Some s) = (s \<noteq> [])"

section \<open>The validator\<close>

text \<open>
  \<open>is_valid_email\<close> matches the address against
  \<^verbatim>\<open>^[^@\s]+@[^@\s]+\.[^@\s]+$\<close> with \<open>re.match\<close>. The pattern is a sequence of
  items; running the items over a string gives every suffix that a match of the items can
  leave, in the order a backtracking matcher tries them (the \<open>+\<close> is greedy). \<open>$\<close>
  (without \<open>re.MULTILINE\<close>) holds at the end of the string and just before a newline
  that ends the string.
\<close>

datatype re_item = Plus "char \<Rightarrow> bool" | Lit char | Dollar

fun re_step :: "re_item \<Rightarrow> string \<Rightarrow> string list" where
  "re_step (Plus p) s = map (\<lambda>k. drop k s) (rev [1 ..< Suc (length (takeWhile p s))])"
| "re_step (Lit c) s = (case s of [] \<Rightarrow> [] | x # r \<Rightarrow> if x = c then [r] else [])"
| "re_step Dollar s = (if s = [] \<or> s = [CHR 0x0A] then [s] else [])"

fun re_run :: "re_item list \<Rightarrow> string \<Rightarrow> string list" where
  "re_run [] s = [s]"
| "re_run (i # is) s = concat (map (re_run is) (re_step i s))"

definition re_match :: "re_item list \<Rightarrow> string \<Rightarrow> bool" where
  "re_match items s = (re_run items s \<noteq> [])"

definition not_at_space :: "char \<Rightarrow> bool" where
  "not_at_space c = (c \<noteq> CHR ''@'' \<and> \<not> is_space c)"

definition email_pattern :: "re_item list" where
  "email_pattern =
     [Plus not_at_space, Lit CHR ''@'', Plus not_at_space, Lit CHR ''.'',
      Plus not_at_space, Dollar]"

definition is_valid_email :: "string \<Rightarrow> bool" where
  "is_valid_email address = (if address = [] then False else re_match email_pattern address)"

text \<open>The two readings of the validator's contract that the theorems compare the code
  with: the specification's wording (exactly one \<open>@\<close>, no whitespace, a dot somewhere
  after the \<open>@\<close>) and the stricter reading in which the part before the \<open>@\<close> is not
  empty and the dot is neither the first nor the last character of the part after it.\<close>

definition before_at :: "string \<Rightarrow> string" where
  "before_at s = takeWhile (\<lambda>c. c \<noteq> CHR ''@'') s"

definition after_at :: "string \<Rightarrow> string" where
  "after_at s = tl (dropWhile (\<lambda>c. c \<noteq> CHR ''@'') s)"

definition spec_valid :: "string \<Rightarrow> bool" where
  "spec_valid s =
     (count_list s CHR ''@'' = 1 \<and> list_all (\<lambda>c. \<not> is_space c) s \<and>
      CHR ''.'' \<in> set (after_at s))"

definition strict_valid :: "string \<Rightarrow> bool" where
  "strict_valid s =
     (count_list s CHR ''@'' = 1 \<and> list_all (\<lambda>c. \<not> is_space c) s \<and>
      before_at s \<noteq> [] \<and> CHR ''.'' \<in> set (butlast (tl (after_at s))))"

section \<open>Exceptions\<close>

text \<open>The exceptions the code can meet. \<open>NotModelled\<close> stands for the results of
  \<open>str.format\<close> that this model does not compute (conversions \<open>!r\<close>, format
  specifications, attribute and index access, very long numeric field names).\<close>

datatype exn =
    KeyError string
  | ValueError
  | IndexError
  | OSError
  | FileNotFoundError
  | OverflowError
  | SystemExit nat
  | NotModelled

section \<open>The template renderer\<close>

text \<open>
  \<open>template_str.format(**variables)\<close>, scanned from left to right as CPython does:
  \<open>{{\<close> and \<open>}}\<close> are literal braces, a lone \<open>}\<close> and an unclosed \<open>{\<close> raise
  \<open>ValueError\<close>, and \<open>{name}\<close> looks \<open>name\<close> up among the keyword arguments. An
  empty or all-digit name is positional; no positional argument is passed, so it raises
  \<open>IndexError\<close>. The first failure is the result. Every value is a \<open>str\<close>, so the
  replacement text is the value itself.
\<close>

datatype fmt_mode = Text | Open | Field string | Close

definition is_digit :: "char \<Rightarrow> bool" where
  "is_digit c = (let n = (of_char c :: nat) in 48 \<le> n \<and> n \<le> 57)"

definition get_field :: "(string \<rightharpoonup> string) \<Rightarrow> string \<Rightarrow> exn + string" where
  "get_field kwargs field_name =
     (if list_all is_digit field_name
      then (if length field_name \<le> 18 then Inl IndexError else Inl NotModelled)
      else (case kwargs field_name of None \<Rightarrow> Inl (KeyError field_name) | Some v \<Rightarrow> Inr v))"

definition emit :: "string \<Rightarrow> exn + string \<Rightarrow> exn + string" where
  "emit out r = (case r of Inl e \<Rightarrow> Inl e | Inr s \<Rightarrow> Inr (out @ s))"

fun fmt :: "(string \<rightharpoonup> string) \<Rightarrow> fmt_mode \<Rightarrow> string \<Rightarrow> exn + string" where
  "fmt kwargs Text [] = Inr []"
| "fmt kwargs Text (c # r) =
     (if c = CHR ''{'' then fmt kwargs Open r
      else if c = CHR ''}'' then fmt kwargs Close r
      else emit [c] (fmt kwargs Text r))"
| "fmt kwargs Open [] = Inl ValueError"
| "fmt kwargs Open (c # r) =
     (if c = CHR ''{'' then emit [c] (fmt kwargs Text r)
      else if c = CHR ''}'' then
        (case get_field kwargs [] of Inl e \<Rightarrow> Inl e | Inr v \<Rightarrow> emit v (fmt kwargs Text r))
      else if c \<in> set ''[.!:'' then Inl NotModelled
      else fmt kwargs (Field [c]) r)"
| "fmt kwargs (Field name) [] = Inl ValueError"
| "fmt kwargs (Field name) (c # r) =
     (if c = CHR ''}'' then
        (case get_field kwargs name of Inl e \<Rightarrow> Inl e | Inr v \<Rightarrow> emit v (fmt kwargs Text r))
      else if c = CHR ''{'' then Inl ValueError
      else if c \<in> set ''[.!:'' then Inl NotModelled
      else fmt kwargs (Field (name @ [c])) r)"
| "fmt kwargs Close [] = Inl ValueError"
| "fmt kwargs Close (c # r) =
     (if c = CHR ''}'' then emit [c] (fmt kwargs Text r) else Inl ValueError)"

definition str_format :: "string \<Rightarrow> (string \<rightharpoonup> string) \<Rightarrow> exn + string" where
  "str_format template_str kwargs = fmt kwargs Text template_str"

text \<open>\<open>str(e)\<close> of a \<open>KeyError\<close> is the \<open>repr\<close> of its key: quoted with \<open>'\<close>, or with
  \<open>"\<close> when the key holds a \<open>'\<close> and no \<open>"\<close>; the quote and the backslash are escaped,
  and so is every code point that is not printable.\<close>

definition hex2 :: "nat \<Rightarrow> string" where
  "hex2 n = [''0123456789abcdef'' ! (n div 16 mod 16), ''0123456789abcdef'' ! (n mod 16)]"

definition printable :: "char \<Rightarrow> bool" where
  "printable c =
     (let n = (of_char c :: nat) in (32 \<le> n \<and> n \<le> 126) \<or> (161 \<le> n \<and> n \<noteq> 173))"

definition repr_char :: "char \<Rightarrow> char \<Rightarrow> string" where
  "repr_char q c =
     (if c = q \<or> c = CHR 0x5C then [CHR 0x5C, c]
      else if c = CHR 0x09 then [CHR 0x5C, CHR ''t'']
      else if c = CHR 0x0A then [CHR 0x5C, CHR ''n'']
      else if c = CHR 0x0D then [CHR 0x5C, CHR ''r'']
      else if printable c then [c]
      else [CHR 0x5C, CHR ''x''] @ hex2 (of_char c))"

definition py_repr :: "string \<Rightarrow> string" where
  "py_repr s =
     (let q = (if CHR 0x27 \<in> set s \<and> CHR 0x22 \<notin> set s then CHR 0x22 else CHR 0x27)
      in [q] @ concat (map (repr_char q) s) @ [q])"

definition strip_quote :: "string \<Rightarrow> string" where
  "strip_quote s =
     rev (dropWhile (\<lambda>c. c = CHR 0x27) (rev (dropWhile (\<lambda>c. c = CHR 0x27) s)))"

section \<open>Messages, events and the environment\<close>

datatype part_class = MIMEImage | MIMEBase

record mime_part =
  part_class :: part_class
  maintype :: string
  subtype :: string
  filename :: string
  payload :: string
  part_headers :: "(string \<times> string) list"

record message =
  headers :: "(string \<times> string) list"
  alt :: "(string \<times> string) list"
  parts :: "mime_part list"

text \<open>What a run does to the world, in order: the log lines at level INFO and above, the
  messages handed to the transport, the calls of \<open>time.sleep\<close> and the EML files
  written.\<close>

datatype event =
    LogDryRunMode
  | LogNoCredentials
  | LogLoginFailed
  | LogTemplateReadFailed string
  | LogMissingVar string
  | LogInvalid "string option"
  | LogDuplicate string
  | LogNoConsent string
  | LogAttachMissing string
  | LogAttachError string
  | LogInlineMissing string
  | LogInlineError string
  | LogSaveFailed
  | WriteEml string message
  | LogDryRun string
  | SmtpLogin string int
  | SmtpSend message
  | LogSent string
  | Sleep real
  | LogSendFailed string
  | SmtpQuit
  | LogDone nat nat nat

datatype read_result = Data string | NotFound | ReadError

type_synonym row = "(string \<times> string) list"

text \<open>
  The collaborators the code calls, as parameters of the model: the process environment,
  \<open>int()\<close> on a string (\<open>None\<close> is its \<open>ValueError\<close>), the SMTP login, the template
  files, the rows \<open>csv.DictReader\<close> yields for a path (\<open>None\<close>: the file cannot be
  opened; every cell of a row is a string), \<open>mimetypes.guess_type\<close>, the resource files,
  \<open>email.utils.formataddr\<close>, and, for the \<open>n\<close>-th record of the run, \<open>make_msgid()\<close>,
  \<open>int(time.time())\<close> and whether \<open>smtp.send_message\<close> returns. \<open>eml_write_ok\<close> tells
  whether a destination file can be written, \<open>sleep_fails\<close> whether the platform rejects
  a delay.
\<close>

record env =
  environ :: "string \<Rightarrow> string option"
  int_of_str :: "string \<Rightarrow> int option"
  smtp_login_ok :: bool
  read_text :: "string \<Rightarrow> string option"
  csv_rows :: "string \<Rightarrow> row list option"
  guess_type :: "string \<Rightarrow> string option"
  read_bytes :: "string \<Rightarrow> read_result"
  formataddr :: "string \<Rightarrow> string \<Rightarrow> string"
  make_msgid :: "nat \<Rightarrow> string"
  time_now :: "nat \<Rightarrow> int"
  eml_write_ok :: "string \<Rightarrow> bool"
  smtp_send_ok :: "nat \<Rightarrow> bool"
  sleep_fails :: "real \<Rightarrow> bool"

text \<open>The parsed command line. Options without a default are \<open>None\<close> when absent.
  \<open>rate_per_minute\<close> is a float; the model computes with it as a real number.\<close>

record args =
  to :: "string option"
  csv :: "string option"
  name :: "string option"
  email_field :: string
  name_field :: string
  consent_field :: string
  require_consent :: bool
  subject :: string
  from_addr :: "string option"
  from_name :: string
  reply_to :: "string option"
  unsubscribe :: "string option"
  template_text :: "string option"
  template_html :: "string option"
  attach :: "string list option"
  inline :: "string list option"
  save_eml_dir :: "string option"
  server :: "string option"
  port :: "int option"
  username :: "string option"
  password :: "string option"
  rate_per_minute :: "real option"
  dry_run :: bool

record state =
  total :: nat
  sent :: nat
  skipped :: nat
  seen :: "string set"
  trace :: "event list"

definition log :: "event list \<Rightarrow> state \<Rightarrow> state" where
  "log evs st = st\<lparr>trace := trace st @ evs\<rparr>"

text \<open>Python's \<open>a or b\<close> on optional strings, and \<open>x or d\<close> with a default.\<close>

definition or_else :: "string option \<Rightarrow> string option \<Rightarrow> string option" where
  "or_else a b = (if truthy a then a else b)"

definition or_str :: "string option \<Rightarrow> string \<Rightarrow> string" where
  "or_str a d = (case a of None \<Rightarrow> d | Some s \<Rightarrow> if s = [] then d else s)"

definition or_list :: "string list option \<Rightarrow> string list" where
  "or_list a = (case a of None \<Rightarrow> [] | Some l \<Rightarrow> l)"

definition render_template ::
    "string \<Rightarrow> (string \<rightharpoonup> string) \<Rightarrow> (exn \<times> event list) + string" where
  "render_template template_str variables =
     (case str_format template_str variables of
        Inr s \<Rightarrow> Inr s
      | Inl (KeyError k) \<Rightarrow> Inl (SystemExit 1, [LogMissingVar (strip_quote (py_repr k))])
      | Inl e \<Rightarrow> Inl (e, []))"

section \<open>Attaching resources\<close>

definition guess_mime_type :: "env \<Rightarrow> string \<Rightarrow> exn + (string \<times> string)" where
  "guess_mime_type e path =
     (case guess_type e path of
        None \<Rightarrow> Inr (''application'', ''octet-stream'')
      | Some ctype \<Rightarrow>
          if CHR ''/'' \<in> set ctype
          then Inr (takeWhile (\<lambda>c. c \<noteq> CHR ''/'') ctype,
                    tl (dropWhile (\<lambda>c. c \<noteq> CHR ''/'') ctype))
          else Inl ValueError)"

definition basename :: "string \<Rightarrow> string" where
  "basename path = rev (takeWhile (\<lambda>c. c \<noteq> CHR ''/'') (rev path))"

text \<open>The body of the \<open>try\<close> of both attach functions up to the part that holds the
  file's content: the first exception raised is the result.\<close>

definition read_part :: "env \<Rightarrow> string \<Rightarrow> exn + mime_part" where
  "read_part e path =
     (case guess_mime_type e path of
        Inl x \<Rightarrow> Inl x
      | Inr (mt, sub) \<Rightarrow>
          (case read_bytes e path of
             NotFound \<Rightarrow> Inl FileNotFoundError
           | ReadError \<Rightarrow> Inl OSError
           | Data d \<Rightarrow>
               Inr \<lparr>part_class = (if mt = ''image'' then MIMEImage else MIMEBase),
                    maintype = mt, subtype = sub, filename = basename path, payload = d,
                    part_headers = []\<rparr>))"

definition add_header :: "string \<Rightarrow> string \<Rightarrow> mime_part \<Rightarrow> mime_part" where
  "add_header k v p = p\<lparr>part_headers := part_headers p @ [(k, v)]\<rparr>"

definition msg_attach :: "mime_part \<Rightarrow> message \<Rightarrow> message" where
  "msg_attach p msg = msg\<lparr>parts := parts msg @ [p]\<rparr>"

definition attach_regular :: "env \<Rightarrow> message \<Rightarrow> string \<Rightarrow> message \<times> event list" where
  "attach_regular e msg path =
     (case read_part e path of
        Inr part \<Rightarrow>
          (msg_attach
             (add_header ''Content-Disposition''
                (''attachment; filename='' @ [CHR 0x22] @ filename part @ [CHR 0x22]) part)
             msg, [])
      | Inl FileNotFoundError \<Rightarrow> (msg, [LogAttachMissing path])
      | Inl x \<Rightarrow> (msg, [LogAttachError path]))"

definition attach_inline ::
    "env \<Rightarrow> message \<Rightarrow> string \<Rightarrow> message \<times> string \<times> event list" where
  "attach_inline e msg path =
     (case read_part e path of
        Inr part \<Rightarrow>
          (let cid = filename part
           in (msg_attach
                 (add_header ''Content-Disposition''
                    (''inline; filename='' @ [CHR 0x22] @ filename part @ [CHR 0x22])
                    (add_header ''Content-ID'' (''<'' @ cid @ ''>'') part))
                 msg, cid, []))
      | Inl FileNotFoundError \<Rightarrow> (msg, [], [LogInlineMissing path])
      | Inl x \<Rightarrow> (msg, [], [LogInlineError path]))"

section \<open>Building the message\<close>

text \<open>The two loops over the resource lists, carrying the message, the content-ID map
  and the log.\<close>

fun inline_loop ::
    "env \<Rightarrow> string list \<Rightarrow> message \<times> (string \<rightharpoonup> string) \<times> event list
       \<Rightarrow> message \<times> (string \<rightharpoonup> string) \<times> event list" where
  "inline_loop e [] acc = acc"
| "inline_loop e (p # ps) (msg, cid_map, evs) =
     (case attach_inline e msg p of
        (msg', cid, evs') \<Rightarrow>
          inline_loop e ps
            (msg', (if cid \<noteq> [] then cid_map(basename p \<mapsto> cid) else cid_map), evs @ evs'))"

fun attach_loop :: "env \<Rightarrow> string list \<Rightarrow> message \<times> event list \<Rightarrow> message \<times> event list" where
  "attach_loop e [] acc = acc"
| "attach_loop e (p # ps) (msg, evs) =
     (case attach_regular e msg p of (msg', evs') \<Rightarrow> attach_loop e ps (msg', evs @ evs'))"

text \<open>The name of the EML file: \<open>re.sub(r"[^a-zA-Z0-9_.-]", "_", ...)\<close> over the
  address, an underscore, the decimal timestamp and \<open>.eml\<close>.\<close>

definition safe_char :: "char \<Rightarrow> bool" where
  "safe_char c =
     (let n = (of_char c :: nat)
      in (97 \<le> n \<and> n \<le> 122) \<or> (65 \<le> n \<and> n \<le> 90) \<or> (48 \<le> n \<and> n \<le> 57) \<or>
         c = CHR ''_'' \<or> c = CHR ''.'' \<or> c = CHR ''-'')"

definition sanitize :: "string \<Rightarrow> string" where
  "sanitize s = map (\<lambda>c. if safe_char c then c else CHR ''_'') s"

function str_nat :: "nat \<Rightarrow> string" where
  "str_nat n =
     (if n < 10 then [''0123456789'' ! n] else str_nat (n div 10) @ [''0123456789'' ! (n mod 10)])"
  by pat_completeness auto
termination
  by (relation "measure id") auto

declare str_nat.simps [simp del]

definition str_int :: "int \<Rightarrow> string" where
  "str_int i = (if i < 0 then CHR ''-'' # str_nat (nat (- i)) else str_nat (nat i))"

definition eml_filename :: "string \<Rightarrow> int \<Rightarrow> string" where
  "eml_filename to_addr t = sanitize (to_addr @ ''_'' @ str_int t @ ''.eml'')"

definition path_join :: "string \<Rightarrow> string \<Rightarrow> string" where
  "path_join d f = (if d \<noteq> [] \<and> last d = CHR ''/'' then d @ f else d @ ''/'' @ f)"

definition save_eml :: "env \<Rightarrow> nat \<Rightarrow> string \<Rightarrow> string option \<Rightarrow> message \<Rightarrow> event list" where
  "save_eml e n to_addr dir msg =
     (if truthy dir then
        (let dest = path_join (or_str dir []) (eml_filename to_addr (time_now e n))
         in if eml_write_ok e dest then [WriteEml dest msg] else [LogSaveFailed])
      else [])"

definition opt_header :: "string \<Rightarrow> string option \<Rightarrow> (string \<times> string) list" where
  "opt_header k v = (if truthy v then [(k, or_str v [])] else [])"

definition build_message ::
    "env \<Rightarrow> nat \<Rightarrow> string \<Rightarrow> string \<Rightarrow> string \<Rightarrow> string \<Rightarrow> string \<Rightarrow> string \<Rightarrow>
     string list \<Rightarrow> string list \<Rightarrow> string option \<Rightarrow> string option \<Rightarrow> string option \<Rightarrow>
     message \<times> (string \<rightharpoonup> string) \<times> event list" where
  "build_message e n from_nm from_ad to_addr subj text_body html_body
       inline_paths attach_paths reply unsub dir =
     (let msg0 = \<lparr>headers =
                    [(''From'', if from_nm \<noteq> [] then formataddr e from_nm from_ad else from_ad),
                     (''To'', to_addr), (''Subject'', subj), (''Message-ID'', make_msgid e n)]
                    @ opt_header ''Reply-To'' reply @ opt_header ''List-Unsubscribe'' unsub,
                  alt = (if text_body \<noteq> [] then [(''plain'', text_body)] else [])
                        @ (if html_body \<noteq> [] then [(''html'', html_body)] else []),
                  parts = []\<rparr>
      in case inline_loop e inline_paths (msg0, Map.empty, []) of
           (msg1, cid_map, evs1) \<Rightarrow>
             (case attach_loop e attach_paths (msg1, evs1) of
                (msg2, evs2) \<Rightarrow> (msg2, cid_map, evs2 @ save_eml e n to_addr dir msg2)))"

section \<open>The delivery pipeline\<close>

text \<open>\<open>time.sleep\<close> raises \<open>OverflowError\<close> when the delay, in nanoseconds, does not
  fit a signed 64-bit integer, and may be rejected by the platform (\<open>OSError\<close>).\<close>

definition time_sleep :: "env \<Rightarrow> real \<Rightarrow> exn option" where
  "time_sleep e d =
     (if 9223372036854775807 < d * 1000000000 then Some OverflowError
      else if sleep_fails e d then Some OSError
      else None)"

definition rate_delay_of :: "args \<Rightarrow> real" where
  "rate_delay_of a =
     (case rate_per_minute a of
        None \<Rightarrow> 0
      | Some r \<Rightarrow> if r \<noteq> 0 \<and> r > 0 then 60 / r else 0)"

definition row_get :: "row \<Rightarrow> string \<Rightarrow> string \<Rightarrow> string" where
  "row_get r k d = (case map_of r k of None \<Rightarrow> d | Some v \<Rightarrow> v)"

type_synonym recipient = "string option \<times> string \<times> row"

definition iter_recipients :: "env \<Rightarrow> args \<Rightarrow> exn + recipient list" where
  "iter_recipients e a =
     (if truthy (csv a) then
        (case csv_rows e (or_str (csv a) []) of
           None \<Rightarrow> Inl OSError
         | Some rows \<Rightarrow>
             Inr (map (\<lambda>r. (Some (strip (row_get r (or_str (Some (email_field a)) ''email'') [])),
                             strip (row_get r (or_str (Some (name_field a)) ''name'') []), r))
                      rows))
      else Inr [(to a, or_str (name a) [], [])])"

definition consent_value :: "args \<Rightarrow> row \<Rightarrow> string" where
  "consent_value a r = lower (strip (if r \<noteq> [] then row_get r (consent_field a) [] else []))"

definition variables_of :: "string \<Rightarrow> string \<Rightarrow> row \<Rightarrow> (string \<rightharpoonup> string)" where
  "variables_of nm email_addr r =
     (\<lambda>k. if k = ''name'' then Some (if nm \<noteq> [] then nm else email_addr)
          else if k = ''email'' then Some email_addr
          else map_of r k)"

text \<open>The configuration the start of \<open>send_messages\<close> resolves before the loop.\<close>

record conf =
  c_username :: "string option"
  c_template_text :: string
  c_template_html :: string
  c_rate_delay :: real

definition skip :: "event \<Rightarrow> state \<Rightarrow> state" where
  "skip ev st = st\<lparr>skipped := skipped st + 1, trace := trace st @ [ev]\<rparr>"

text \<open>Lines 237 to 249: dry run, or the \<open>try\<close> around the send, the count and the
  pause.\<close>

definition dispatch :: "env \<Rightarrow> args \<Rightarrow> conf \<Rightarrow> nat \<Rightarrow> string \<Rightarrow> message \<Rightarrow> state \<Rightarrow> state" where
  "dispatch e a c n email_addr msg st =
     (if dry_run a then st\<lparr>sent := sent st + 1, trace := trace st @ [LogDryRun email_addr]\<rparr>
      else if smtp_send_ok e n then
        (let st1 = st\<lparr>sent := sent st + 1, trace := trace st @ [SmtpSend msg, LogSent email_addr]\<rparr>
         in if c_rate_delay c > 0 then
              (case time_sleep e (c_rate_delay c) of
                 None \<Rightarrow> log [Sleep (c_rate_delay c)] st1
               | Some x \<Rightarrow> skip (LogSendFailed email_addr) (log [Sleep (c_rate_delay c)] st1))
            else st1)
      else skip (LogSendFailed email_addr) (log [SmtpSend msg] st))"

text \<open>Lines 214 to 249: variables, rendering, building, dispatch.\<close>

definition deliver ::
    "env \<Rightarrow> args \<Rightarrow> conf \<Rightarrow> nat \<Rightarrow> string \<Rightarrow> string \<Rightarrow> row \<Rightarrow> state \<Rightarrow> (exn \<times> state) + state" where
  "deliver e a c n email_addr nm r st =
     (let variables = variables_of nm email_addr r
      in case (if c_template_text c \<noteq> [] then render_template (c_template_text c) variables
               else Inr []) of
           Inl (x, evs) \<Rightarrow> Inl (x, log evs st)
         | Inr text_body \<Rightarrow>
             (case (if c_template_html c \<noteq> [] then render_template (c_template_html c) variables
                    else Inr []) of
                Inl (x, evs) \<Rightarrow> Inl (x, log evs st)
              | Inr html_body \<Rightarrow>
                  (case build_message e n (from_name a)
                          (or_str (or_else (from_addr a) (c_username c)) [])
                          email_addr (subject a) text_body html_body
                          (or_list (inline a)) (or_list (attach a))
                          (reply_to a) (unsubscribe a) (save_eml_dir a) of
                     (msg, cid_map, evs) \<Rightarrow> Inr (dispatch e a c n email_addr msg (log evs st)))))"

text \<open>One pass of the loop body (lines 197 to 249). The record's ordinal, used for the
  environment's per-record answers, is the value of \<open>total\<close> on entry.\<close>

definition process_one ::
    "env \<Rightarrow> args \<Rightarrow> conf \<Rightarrow> recipient \<Rightarrow> state \<Rightarrow> (exn \<times> state) + state" where
  "process_one e a c rcp st =
     (case rcp of (email_addr, nm, r) \<Rightarrow>
        (let n = total st; st1 = st\<lparr>total := total st + 1\<rparr>
         in case email_addr of
              None \<Rightarrow> Inr (skip (LogInvalid None) st1)
            | Some addr \<Rightarrow>
                if \<not> is_valid_email addr then Inr (skip (LogInvalid (Some addr)) st1)
                else if addr \<in> seen st1 then Inr (skip (LogDuplicate addr) st1)
                else
                  (let st2 = st1\<lparr>seen := insert addr (seen st1)\<rparr>
                   in if require_consent a \<and> truthy (csv a) \<and>
                         consent_value a r \<notin> {''1'', ''true'', ''yes'', ''y''}
                      then Inr (skip (LogNoConsent addr) st2)
                      else deliver e a c n addr nm r st2)))"

fun run_loop ::
    "env \<Rightarrow> args \<Rightarrow> conf \<Rightarrow> recipient list \<Rightarrow> state \<Rightarrow> (exn \<times> state) + state" where
  "run_loop e a c [] st = Inr st"
| "run_loop e a c (rcp # rcps) st =
     (case process_one e a c rcp st of
        Inl x \<Rightarrow> Inl x
      | Inr st' \<Rightarrow> run_loop e a c rcps st')"

definition init_state :: state where
  "init_state = \<lparr>total = 0, sent = 0, skipped = 0, seen = {}, trace = []\<rparr>"

definition server_port :: "env \<Rightarrow> args \<Rightarrow> exn + int" where
  "server_port e a =
     (case port a of
        Some p \<Rightarrow> if p \<noteq> 0 then Inr p
                  else (case environ e ''MAIL_PORT'' of
                          None \<Rightarrow> Inr 587
                        | Some s \<Rightarrow> if s = [] then Inr 587
                                    else (case int_of_str e s of None \<Rightarrow> Inl ValueError | Some i \<Rightarrow> Inr i))
      | None \<Rightarrow> (case environ e ''MAIL_PORT'' of
                   None \<Rightarrow> Inr 587
                 | Some s \<Rightarrow> if s = [] then Inr 587
                             else (case int_of_str e s of None \<Rightarrow> Inl ValueError | Some i \<Rightarrow> Inr i)))"

definition load_text :: "env \<Rightarrow> string \<Rightarrow> (exn \<times> event list) + string" where
  "load_text e path =
     (if path = [] then Inr []
      else (case read_text e path of
              Some s \<Rightarrow> Inr s
            | None \<Rightarrow> Inl (SystemExit 1, [LogTemplateReadFailed path])))"

definition default_text :: string where
  "default_text = ''Hi {name},'' @ [CHR 0x0A, CHR 0x0A] @ ''This is a friendly message.'' @ [CHR 0x0A]"

definition default_html :: string where
  "default_html = ''<p>Hi <strong>{name}</strong>,</p><p>This is a friendly message.</p>''"

definition load_template :: "env \<Rightarrow> string option \<Rightarrow> string \<Rightarrow> (exn \<times> event list) + string" where
  "load_template e path dflt = (if truthy path then load_text e (or_str path []) else Inr dflt)"

text \<open>Lines 151 to 180: credentials, login, templates and the pacing delay. The result
  is the resolved configuration and the log so far, or the exception that ends the run.\<close>

definition startup :: "env \<Rightarrow> args \<Rightarrow> (exn \<times> event list) + (conf \<times> event list)" where
  "startup e a =
     (let user = or_else (username a) (environ e ''MAIL_USERNAME'');
          pass = or_else (password a) (environ e ''MAIL_PASSWORD'');
          server_address =
            or_str (or_else (server a) (environ e ''MAIL_SERVER'')) ''smtp.example.com''
      in case server_port e a of
           Inl x \<Rightarrow> Inl (x, [])
         | Inr prt \<Rightarrow>
            (let evs0 = (if dry_run a then [LogDryRunMode] else [])
             in if \<not> dry_run a \<and> (\<not> truthy user \<or> \<not> truthy pass)
                then Inl (SystemExit 1, evs0 @ [LogNoCredentials])
                else if \<not> dry_run a \<and> \<not> smtp_login_ok e
                then Inl (SystemExit 1, evs0 @ [LogLoginFailed])
                else
                  (let evs1 = evs0 @ (if dry_run a then [] else [SmtpLogin server_address prt])
                   in case load_template e (template_text a) default_text of
                        Inl (x, evs) \<Rightarrow> Inl (x, evs1 @ evs)
                      | Inr tt \<Rightarrow>
                          (case load_template e (template_html a) default_html of
                             Inl (x, evs) \<Rightarrow> Inl (x, evs1 @ evs)
                           | Inr th \<Rightarrow>
                               Inr (\<lparr>c_username = user, c_template_text = tt,
                                     c_template_html = th, c_rate_delay = rate_delay_of a\<rparr>,
                                    evs1)))))"

definition finish :: "args \<Rightarrow> state \<Rightarrow> state" where
  "finish a st =
     log ((if dry_run a then [] else [SmtpQuit]) @ [LogDone (total st) (sent st) (skipped st)]) st"

definition send_messages :: "env \<Rightarrow> args \<Rightarrow> (exn \<times> state) + state" where
  "send_messages e a =
     (case startup e a of
        Inl (x, evs) \<Rightarrow> Inl (x, log evs init_state)
      | Inr (c, evs) \<Rightarrow>
          (case iter_recipients e a of
             Inl x \<Rightarrow> Inl (x, log evs init_state)
           | Inr rcps \<Rightarrow>
               (case run_loop e a c rcps (log evs init_state) of
                  Inl x \<Rightarrow> Inl x
                | Inr st \<Rightarrow> Inr (finish a st))))"

text \<open>The state a run ends in, normally or not.\<close>

definition final_state :: "(exn \<times> state) + state \<Rightarrow> state" where
  "final_state r = (case r of Inl (x, st) \<Rightarrow> st | Inr st \<Rightarrow> st)"

section \<open>Observations on runs\<close>

text \<open>What the theorems read off a run: the tally, the addresses of the messages handed
  to the transport, and the state without the log lines of the attach functions.\<close>

definition tally :: "state \<Rightarrow> nat \<times> nat \<times> nat" where
  "tally st = (total st, sent st, skipped st)"

definition to_header :: "message \<Rightarrow> string" where
  "to_header msg = row_get (headers msg) ''To'' []"

definition smtp_recipients :: "event list \<Rightarrow> string list" where
  "smtp_recipients tr = concat (map (\<lambda>ev. case ev of SmtpSend m \<Rightarrow> [to_header m] | _ \<Rightarrow> []) tr)"

definition unreadable :: "env \<Rightarrow> string \<Rightarrow> bool" where
  "unreadable e p = (case read_bytes e p of Data d \<Rightarrow> False | NotFound \<Rightarrow> True | ReadError \<Rightarrow> True)"

definition readable_only :: "env \<Rightarrow> string list \<Rightarrow> string list" where
  "readable_only e ps = filter (\<lambda>p. \<not> unreadable e p) ps"

definition is_resource_log :: "event \<Rightarrow> bool" where
  "is_resource_log ev =
     (case ev of LogAttachMissing p \<Rightarrow> True | LogAttachError p \<Rightarrow> True
               | LogInlineMissing p \<Rightarrow> True | LogInlineError p \<Rightarrow> True | _ \<Rightarrow> False)"

definition quiet :: "state \<Rightarrow> state" where
  "quiet st = st\<lparr>trace := filter (\<lambda>ev. \<not> is_resource_log ev) (trace st)\<rparr>"

definition quiet_result :: "(exn \<times> state) + state \<Rightarrow> (exn \<times> state) + state" where
  "quiet_result r = (case r of Inl (x, st) \<Rightarrow> Inl (x, quiet st) | Inr st \<Rightarrow> Inr (quiet st))"




text \<open>
  Templates as the specification sees them: literal text and \<open>{key}\<close> placeholders.
  \<open>show_template\<close> writes such a template in the syntax of \<open>str.format\<close> (a brace of
  the literal text is doubled), \<open>subst_seg\<close> is what a segment should render to. A key
  is simple when it is not empty, not a number, and holds none of the characters
  \<open>{ } [ . ! :\<close> that \<open>str.format\<close> reads as syntax; it is plain when \<open>repr\<close> shows
  it as it is.
\<close>

datatype seg = TText string | TVar string

definition esc_char :: "char \<Rightarrow> string" where
  "esc_char c = (if c = CHR ''{'' then ''{{'' else if c = CHR ''}'' then ''}}'' else [c])"

fun show_seg :: "seg \<Rightarrow> string" where
  "show_seg (TText s) = concat (map esc_char s)"
| "show_seg (TVar k) = ''{'' @ k @ ''}''"

definition show_template :: "seg list \<Rightarrow> string" where
  "show_template segs = concat (map show_seg segs)"

fun subst_seg :: "(string \<rightharpoonup> string) \<Rightarrow> seg \<Rightarrow> string" where
  "subst_seg vars (TText s) = s"
| "subst_seg vars (TVar k) = (case vars k of None \<Rightarrow> [] | Some v \<Rightarrow> v)"

fun seg_keys :: "seg list \<Rightarrow> string list" where
  "seg_keys [] = []"
| "seg_keys (TText s # segs) = seg_keys segs"
| "seg_keys (TVar k # segs) = k # seg_keys segs"

definition simple_key :: "string \<Rightarrow> bool" where
  "simple_key k =
     (k \<noteq> [] \<and> \<not> list_all is_digit k \<and> list_all (\<lambda>c. c \<notin> set ''{}[.!:'') k)"

definition plain_key :: "string \<Rightarrow> bool" where
  "plain_key k = list_all (\<lambda>c. printable c \<and> c \<noteq> CHR 0x27 \<and> c \<noteq> CHR 0x5C) k"






section \<open>Example inputs\<close>

text \<open>The command line with every option at the default of \<open>build_parser\<close>, and an
  environment in which the login succeeds, every send is accepted, no resource file
  exists and the clock stands still.\<close>

definition default_args :: args where
  "default_args =
     \<lparr>to = None, csv = None, name = None, email_field = ''email'', name_field = ''name'',
      consent_field = ''consent'', require_consent = True, subject = ''Hello from Example'',
      from_addr = None, from_name = ''Example Team'', reply_to = None, unsubscribe = None,
      template_text = None, template_html = None, attach = None, inline = None,
      save_eml_dir = None, server = None, port = None, username = None, password = None,
      rate_per_minute = None, dry_run = False\<rparr>"

definition example_rows :: "row list" where
  "example_rows =
     [[(''email'', ''ann@example.com''), (''name'', ''Ann''), (''consent'', ''Y'')],
      [(''email'', ''bad''), (''name'', ''Bob''), (''consent'', ''yes'')],
      [(''email'', ''bad''), (''name'', ''Bob''), (''consent'', ''yes'')],
      [(''email'', ''cy@example.com''), (''name'', ''Cy''), (''consent'', ''no'')],
      [(''email'', ''ann@example.com''), (''name'', ''Ann again''), (''consent'', ''yes'')],
      [(''email'', ''cy@example.com''), (''name'', ''Cy''), (''consent'', ''yes'')]]"

definition example_env :: env where
  "example_env =
     \<lparr>environ = (\<lambda>k. None), int_of_str = (\<lambda>s. None), smtp_login_ok = True,
      read_text = (\<lambda>p. None),
      csv_rows = (\<lambda>p. if p = ''list.csv'' then Some example_rows else None),
      guess_type = (\<lambda>p. None), read_bytes = (\<lambda>p. NotFound),
      formataddr = (\<lambda>n a. n @ '' <'' @ a @ ''>''),
      make_msgid = (\<lambda>n. ''<'' @ str_nat n @ ''@example>''),
      time_now = (\<lambda>n. 1700000000), eml_write_ok = (\<lambda>p. True),
      smtp_send_ok = (\<lambda>n. True), sleep_fails = (\<lambda>d. False)\<rparr>"

definition example_conf :: conf where
  "example_conf =
     \<lparr>c_username = Some ''user'', c_template_text = default_text,
      c_template_html = default_html, c_rate_delay = 2\<rparr>"

definition refusing_env :: env where
  "refusing_env = example_env\<lparr>smtp_send_ok := (\<lambda>n. False)\<rparr>"

definition template_env :: env where
  "template_env =
     example_env\<lparr>read_text := (\<lambda>p. if p = ''t.txt'' then Some ''Hi {missing}'' else None)\<rparr>"

definition invalid_twice_env :: env where
  "invalid_twice_env =
     example_env\<lparr>csv_rows := (\<lambda>p. if p = ''twice.csv''
        then Some [[(''email'', ''bad''), (''consent'', ''yes'')],
                   [(''email'', ''bad''), (''consent'', ''yes'')]]
        else None)\<rparr>"


definition slow_args :: args where
  "slow_args =
     default_args\<lparr>to := Some ''a@b.com'', username := Some ''user'', password := Some ''secret'',
                   rate_per_minute := Some (1 / 1000000000)\<rparr>"

definition live_args :: args where
  "live_args = default_args\<lparr>username := Some ''user'', password := Some ''secret''\<rparr>"

section \<open>The validator: proofs\<close>

lemma re_step_Plus_iff:
  "r \<in> set (re_step (Plus p) s) \<longleftrightarrow> (\<exists>pre. pre \<noteq> [] \<and> s = pre @ r \<and> (\<forall>c\<in>set pre. p c))"
proof
  assume "r \<in> set (re_step (Plus p) s)"
  then obtain k where k: "1 \<le> k" "k \<le> length (takeWhile p s)" and r: "r = drop k s"
    by auto
  have "length (takeWhile p s) \<le> length s" by (rule length_takeWhile_le)
  with k have ks: "k \<le> length s" by simp
  have "take k s = take k (takeWhile p s)"
    using k(2) by (metis takeWhile_dropWhile_id take_append diff_is_0_eq take_0 append_Nil2)
  then have "\<forall>c\<in>set (take k s). p c"
    by (metis in_set_takeD set_takeWhileD)
  moreover have "take k s \<noteq> []" using k(1) ks by auto
  moreover have "s = take k s @ r" using r by simp
  ultimately show "\<exists>pre. pre \<noteq> [] \<and> s = pre @ r \<and> (\<forall>c\<in>set pre. p c)" by blast
next
  assume "\<exists>pre. pre \<noteq> [] \<and> s = pre @ r \<and> (\<forall>c\<in>set pre. p c)"
  then obtain pre where pre: "pre \<noteq> []" "s = pre @ r" "\<forall>c\<in>set pre. p c" by blast
  then have "takeWhile p s = pre @ takeWhile p r" by (simp add: takeWhile_append2)
  then have "length pre \<le> length (takeWhile p s)" by simp
  moreover have "1 \<le> length pre" using pre(1) by (cases pre) auto
  moreover have "r = drop (length pre) s" using pre(2) by simp
  ultimately have "length pre \<in> {1 ..< Suc (length (takeWhile p s))}" and "r = drop (length pre) s"
    by auto
  then show "r \<in> set (re_step (Plus p) s)"
    by (simp only: re_step.simps set_map set_rev set_upt) blast
qed

lemma re_step_Lit_iff: "r \<in> set (re_step (Lit c) s) \<longleftrightarrow> s = c # r"
  by (cases s) auto

lemma re_step_Dollar_iff: "r \<in> set (re_step Dollar s) \<longleftrightarrow> r = s \<and> (s = [] \<or> s = [CHR 0x0A])"
  by auto

lemma re_run_Cons_iff: "r \<in> set (re_run (i # is) s) \<longleftrightarrow> (\<exists>m\<in>set (re_step i s). r \<in> set (re_run is m))"
  by auto

lemma re_run_Nil_iff: "r \<in> set (re_run [] s) \<longleftrightarrow> r = s"
  by simp

lemma re_match_iff: "re_match items s \<longleftrightarrow> (\<exists>r. r \<in> set (re_run items s))"
  by (cases "re_run items s") (auto simp: re_match_def)

lemma email_match_iff:
  "re_match email_pattern s \<longleftrightarrow>
     (\<exists>l d1 d2 n. s = l @ CHR ''@'' # d1 @ CHR ''.'' # d2 @ n \<and> l \<noteq> [] \<and> d1 \<noteq> [] \<and> d2 \<noteq> []
        \<and> (\<forall>c\<in>set l. not_at_space c) \<and> (\<forall>c\<in>set d1. not_at_space c) \<and> (\<forall>c\<in>set d2. not_at_space c)
        \<and> (n = [] \<or> n = [CHR 0x0A]))" (is "?L = ?R")
proof
  assume ?L
  then obtain r where "r \<in> set (re_run email_pattern s)" by (auto simp: re_match_iff)
  then obtain m1 m2 m3 m4 m5 where
      1: "m1 \<in> set (re_step (Plus not_at_space) s)"
  and 2: "m2 \<in> set (re_step (Lit CHR ''@'') m1)"
  and 3: "m3 \<in> set (re_step (Plus not_at_space) m2)"
  and 4: "m4 \<in> set (re_step (Lit CHR ''.'') m3)"
  and 5: "m5 \<in> set (re_step (Plus not_at_space) m4)"
  and 6: "r \<in> set (re_step Dollar m5)"
    unfolding email_pattern_def re_run_Cons_iff re_run_Nil_iff by blast
  from 1 obtain l where l: "l \<noteq> []" "s = l @ m1" "\<forall>c\<in>set l. not_at_space c"
    unfolding re_step_Plus_iff by blast
  from 3 obtain d1 where d1: "d1 \<noteq> []" "m2 = d1 @ m3" "\<forall>c\<in>set d1. not_at_space c"
    unfolding re_step_Plus_iff by blast
  from 5 obtain d2 where d2: "d2 \<noteq> []" "m4 = d2 @ m5" "\<forall>c\<in>set d2. not_at_space c"
    unfolding re_step_Plus_iff by blast
  from 2 have m1: "m1 = CHR ''@'' # m2" unfolding re_step_Lit_iff .
  from 4 have m3: "m3 = CHR ''.'' # m4" unfolding re_step_Lit_iff .
  from 6 have m5: "m5 = [] \<or> m5 = [CHR 0x0A]" unfolding re_step_Dollar_iff by blast
  have "s = l @ CHR ''@'' # d1 @ CHR ''.'' # d2 @ m5"
    using l(2) d1(2) d2(2) m1 m3 by simp
  with l d1 d2 m5 show ?R by blast
next
  assume ?R
  then obtain l d1 d2 n where s: "s = l @ CHR ''@'' # d1 @ CHR ''.'' # d2 @ n"
    and l: "l \<noteq> []" "\<forall>c\<in>set l. not_at_space c"
    and d1: "d1 \<noteq> []" "\<forall>c\<in>set d1. not_at_space c"
    and d2: "d2 \<noteq> []" "\<forall>c\<in>set d2. not_at_space c"
    and n: "n = [] \<or> n = [CHR 0x0A]" by blast
  have 1: "CHR ''@'' # d1 @ CHR ''.'' # d2 @ n \<in> set (re_step (Plus not_at_space) s)"
    unfolding re_step_Plus_iff using s l by blast
  have 2: "d1 @ CHR ''.'' # d2 @ n \<in> set (re_step (Lit CHR ''@'') (CHR ''@'' # d1 @ CHR ''.'' # d2 @ n))"
    unfolding re_step_Lit_iff ..
  have 3: "CHR ''.'' # d2 @ n \<in> set (re_step (Plus not_at_space) (d1 @ CHR ''.'' # d2 @ n))"
    unfolding re_step_Plus_iff using d1 by blast
  have 4: "d2 @ n \<in> set (re_step (Lit CHR ''.'') (CHR ''.'' # d2 @ n))"
    unfolding re_step_Lit_iff ..
  have 5: "n \<in> set (re_step (Plus not_at_space) (d2 @ n))"
    unfolding re_step_Plus_iff using d2 by blast
  have 6: "n \<in> set (re_step Dollar n)"
    unfolding re_step_Dollar_iff using n by blast
  have "n \<in> set (re_run email_pattern s)"
    unfolding email_pattern_def re_run_Cons_iff re_run_Nil_iff using 1 2 3 4 5 6 by blast
  then show ?L unfolding re_match_iff by blast
qed

lemma count_one_split:
  "count_list s a = 1 \<Longrightarrow> \<exists>l d. s = l @ a # d \<and> a \<notin> set l \<and> a \<notin> set d"
proof (induction s)
  case Nil
  then show ?case by simp
next
  case (Cons x s)
  show ?case
  proof (cases "x = a")
    case True
    with Cons.prems have "count_list s a = 0" by simp
    then have "a \<notin> set s" by (simp add: count_list_0_iff)
    with True show ?thesis by (intro exI[of _ "[]"] exI[of _ s]) simp
  next
    case False
    with Cons.prems have "count_list s a = 1" by simp
    then obtain l d where "s = l @ a # d" "a \<notin> set l" "a \<notin> set d"
      using Cons.IH by blast
    with False show ?thesis by (intro exI[of _ "x # l"] exI[of _ d]) simp
  qed
qed

lemma count_split: "a \<notin> set l \<Longrightarrow> a \<notin> set d \<Longrightarrow> count_list (l @ a # d) a = 1"
  by (induction l) (auto simp: count_list_0_iff)

lemma before_at_split: "CHR ''@'' \<notin> set l \<Longrightarrow> before_at (l @ CHR ''@'' # d) = l"
  by (induction l) (auto simp: before_at_def)

lemma after_at_split: "CHR ''@'' \<notin> set l \<Longrightarrow> after_at (l @ CHR ''@'' # d) = d"
  by (induction l) (auto simp: after_at_def)

lemma inner_elem_iff:
  "a \<in> set (butlast (tl d)) \<longleftrightarrow> (\<exists>d1 d2. d = d1 @ a # d2 \<and> d1 \<noteq> [] \<and> d2 \<noteq> [])"
proof
  assume "a \<in> set (butlast (tl d))"
  then obtain u v where uv: "butlast (tl d) = u @ a # v" by (meson split_list)
  then have "tl d \<noteq> []" by auto
  then have "tl d = (u @ a # v) @ [last (tl d)]" using uv by (metis append_butlast_last_id)
  moreover have "d \<noteq> []" using \<open>tl d \<noteq> []\<close> by auto
  ultimately have "d = (hd d # u) @ a # (v @ [last (tl d)])" by (cases d) auto
  then show "\<exists>d1 d2. d = d1 @ a # d2 \<and> d1 \<noteq> [] \<and> d2 \<noteq> []" by blast
next
  assume "\<exists>d1 d2. d = d1 @ a # d2 \<and> d1 \<noteq> [] \<and> d2 \<noteq> []"
  then obtain d1 d2 where "d = d1 @ a # d2" "d1 \<noteq> []" "d2 \<noteq> []" by blast
  then show "a \<in> set (butlast (tl d))"
    by (cases d1) (auto simp: butlast_append)
qed

lemma valid_iff_strict:
  assumes "s = [] \<or> last s \<noteq> CHR 0x0A"
  shows "is_valid_email s = strict_valid s"
proof
  assume "is_valid_email s"
  from \<open>is_valid_email s\<close> have "re_match email_pattern s" by (auto simp: is_valid_email_def split: if_splits)
  then obtain l d1 d2 n where s: "s = l @ CHR ''@'' # d1 @ CHR ''.'' # d2 @ n"
    and l: "l \<noteq> []" "\<forall>c\<in>set l. not_at_space c"
    and d1: "d1 \<noteq> []" "\<forall>c\<in>set d1. not_at_space c"
    and d2: "d2 \<noteq> []" "\<forall>c\<in>set d2. not_at_space c"
    and n: "n = [] \<or> n = [CHR 0x0A]" unfolding email_match_iff by blast
  have "n = []"
  proof (rule ccontr)
    assume "n \<noteq> []"
    with n have "n = [CHR 0x0A]" by blast
    with s have "s \<noteq> []" "last s = CHR 0x0A" by simp_all
    with assms show False by blast
  qed
  then have s': "s = l @ CHR ''@'' # (d1 @ CHR ''.'' # d2)" using s by simp
  have nl: "CHR ''@'' \<notin> set l" using l(2) not_at_space_def by blast
  have "CHR ''@'' \<notin> set d1" "CHR ''@'' \<notin> set d2" using d1(2) d2(2) not_at_space_def by blast+
  then have nd: "CHR ''@'' \<notin> set (d1 @ CHR ''.'' # d2)" by simp
  have dot: "\<not> is_space CHR ''.''" "\<not> is_space CHR ''@''" by (simp_all add: is_space_def)
  have "count_list s CHR ''@'' = 1" unfolding s' using nl nd by (rule count_split)
  moreover have "list_all (\<lambda>c. \<not> is_space c) s"
    unfolding list_all_iff
  proof
    fix c assume "c \<in> set s"
    then have "c \<in> set l \<or> c = CHR ''@'' \<or> c \<in> set d1 \<or> c = CHR ''.'' \<or> c \<in> set d2"
      unfolding s' by (simp, blast)
    moreover have "\<And>x. not_at_space x \<Longrightarrow> \<not> is_space x" by (simp add: not_at_space_def)
    ultimately show "\<not> is_space c"
      using l(2) d1(2) d2(2) dot by (elim disjE) simp_all
  qed
  moreover have "before_at s = l" unfolding s' using nl by (rule before_at_split)
  moreover have "after_at s = d1 @ CHR ''.'' # d2" unfolding s' using nl by (rule after_at_split)
  moreover have "CHR ''.'' \<in> set (butlast (tl (d1 @ CHR ''.'' # d2)))"
    by (rule iffD2[OF inner_elem_iff]) (intro exI conjI, rule refl, (fact d1(1) d2(1))+)
  ultimately show "strict_valid s" using l(1) by (simp add: strict_valid_def)
next
  assume sv: "strict_valid s"
  then have "count_list s CHR ''@'' = 1" by (simp add: strict_valid_def)
  from count_one_split[OF this]
  obtain l d where s: "s = l @ CHR ''@'' # d" and nl: "CHR ''@'' \<notin> set l" and nd: "CHR ''@'' \<notin> set d"
    by blast
  have b: "before_at s = l" and a: "after_at s = d"
    unfolding s using nl by (simp_all add: before_at_split after_at_split)
  from sv a obtain d1 d2 where d: "d = d1 @ CHR ''.'' # d2" "d1 \<noteq> []" "d2 \<noteq> []"
    unfolding strict_valid_def inner_elem_iff by auto
  have sp: "\<forall>c\<in>set s. \<not> is_space c" using sv by (simp add: strict_valid_def list_all_iff)
  have "l \<noteq> []" using sv b by (simp add: strict_valid_def)
  moreover have "\<forall>c\<in>set l. not_at_space c" using sp nl s by (auto simp: not_at_space_def)
  moreover have "\<forall>c\<in>set d1. not_at_space c" "\<forall>c\<in>set d2. not_at_space c"
    using sp nd s d by (auto simp: not_at_space_def)
  moreover have "s = l @ CHR ''@'' # d1 @ CHR ''.'' # d2 @ []" using s d by simp
  ultimately have "re_match email_pattern s" unfolding email_match_iff using d by blast
  moreover have "s \<noteq> []" using s by simp
  ultimately show "is_valid_email s" by (simp add: is_valid_email_def)
qed

lemma whitespace_only_invalid:
  assumes "list_all is_space s"
  shows "\<not> is_valid_email s"
proof
  assume "is_valid_email s"
  then have "re_match email_pattern s" by (simp add: is_valid_email_def split: if_splits)
  then obtain l r where s: "s = l @ r" and l: "l \<noteq> []" "\<forall>c\<in>set l. not_at_space c"
    unfolding email_match_iff by blast
  from l(1) have "hd l \<in> set l" by simp
  with l(2) have "\<not> is_space (hd l)" by (simp add: not_at_space_def)
  moreover have "hd l \<in> set s" using s \<open>hd l \<in> set l\<close> by simp
  ultimately show False using assms by (simp add: list_all_iff)
qed

lemmas email_eval = is_valid_email_def re_match_def email_pattern_def not_at_space_def is_space_def

text \<open>
  Claim C5, as the specification words it, fails on the code: \<open>@b.com\<close> has exactly
  one \<open>@\<close>, no whitespace and a dot after the \<open>@\<close>, and \<open>is_valid_email\<close>
  rejects it, because the pattern wants at least one character before the \<open>@\<close>.
\<close>

theorem C5_counterexample:
  "spec_valid ''@b.com'' \<and> \<not> is_valid_email ''@b.com''"
  by (simp add: spec_valid_def after_at_def email_eval)

text \<open>
  Claim C5, amended: \<open>is_valid_email\<close> returns false for the empty string and for a
  string of whitespace only; for a string that does not end in a newline it returns true
  exactly when the string has exactly one \<open>@\<close>, holds no whitespace, has at least one
  character before the \<open>@\<close>, and has, in the part after the \<open>@\<close>, a dot that is
  neither the first nor the last character of that part. \<open>a@b.com\<close> is valid;
  \<open>not-an-email\<close>, the empty string and \<open>a@b\<close> are not.
\<close>

theorem C5_validator:
  "\<not> is_valid_email [] \<and>
   (list_all is_space s \<longrightarrow> \<not> is_valid_email s) \<and>
   ((s = [] \<or> last s \<noteq> CHR 0x0A) \<longrightarrow> is_valid_email s = strict_valid s) \<and>
   is_valid_email ''a@b.com'' \<and> \<not> is_valid_email ''not-an-email'' \<and> \<not> is_valid_email ''a@b''"
proof (intro conjI impI)
  show "\<not> is_valid_email []" by (simp add: is_valid_email_def)
  show "is_valid_email ''a@b.com''" by (simp add: email_eval)
  show "\<not> is_valid_email ''not-an-email''" by (simp add: email_eval)
  show "\<not> is_valid_email ''a@b''" by (simp add: email_eval)
qed (simp_all add: whitespace_only_invalid valid_iff_strict)

theorem C5_validator_witness:
  "list_all is_space '' '' \<and> \<not> is_valid_email '' '' \<and>
   last ''x.y@mail.example.org'' \<noteq> CHR 0x0A \<and>
   is_valid_email ''x.y@mail.example.org'' \<and> strict_valid ''x.y@mail.example.org''"
  using C5_validator [of "'' ''"] C5_validator [of "''x.y@mail.example.org''"]
  by (simp add: strict_valid_def before_at_def after_at_def is_space_def)

text \<open>The \<open>$\<close> of the pattern also holds before a final newline, so a valid address
  followed by one newline is accepted although it holds whitespace.\<close>

lemma trailing_newline_accepted: "is_valid_email (''a@b.com'' @ [CHR 0x0A])"
  by (simp add: email_eval)

section \<open>The loop body: basic facts\<close>

lemma dispatch_fields:
  "seen (dispatch e a c n addr msg st) = seen st"
  "total (dispatch e a c n addr msg st) = total st"
  by (simp_all add: dispatch_def skip_def log_def Let_def split: option.splits)

lemma deliver_fields:
  "seen (final_state (deliver e a c n addr nm r st)) = seen st"
  "total (final_state (deliver e a c n addr nm r st)) = total st"
  by (simp_all add: deliver_def final_state_def log_def Let_def dispatch_fields split: sum.splits prod.splits)

lemma process_one_None:
  "process_one e a c (None, nm, r) st = Inr (skip (LogInvalid None) (st\<lparr>total := total st + 1\<rparr>))"
  by (simp add: process_one_def)

lemma process_one_invalid:
  "\<not> is_valid_email x \<Longrightarrow>
   process_one e a c (Some x, nm, r) st = Inr (skip (LogInvalid (Some x)) (st\<lparr>total := total st + 1\<rparr>))"
  by (simp add: process_one_def)

lemma process_one_duplicate:
  "is_valid_email x \<Longrightarrow> x \<in> seen st \<Longrightarrow>
   process_one e a c (Some x, nm, r) st = Inr (skip (LogDuplicate x) (st\<lparr>total := total st + 1\<rparr>))"
  by (simp add: process_one_def)

lemma process_one_fresh:
  "is_valid_email x \<Longrightarrow> x \<notin> seen st \<Longrightarrow>
   process_one e a c (Some x, nm, r) st =
     (if require_consent a \<and> truthy (csv a) \<and> consent_value a r \<notin> {''1'', ''true'', ''yes'', ''y''}
      then Inr (skip (LogNoConsent x) (st\<lparr>total := total st + 1, seen := insert x (seen st)\<rparr>))
      else deliver e a c (total st) x nm r (st\<lparr>total := total st + 1, seen := insert x (seen st)\<rparr>))"
  by (simp add: process_one_def Let_def)

lemma process_one_seen:
  "seen (final_state (process_one e a c (ea, nm, r) st)) =
     seen st \<union> {x. ea = Some x \<and> is_valid_email x}"
proof (cases ea)
  case None
  then show ?thesis by (simp add: process_one_None final_state_def skip_def)
next
  case (Some x)
  show ?thesis
  proof (cases "is_valid_email x")
    case False
    then show ?thesis using Some by (auto simp add: process_one_invalid final_state_def skip_def)
  next
    case True
    show ?thesis
    proof (cases "x \<in> seen st")
      case True
      with \<open>is_valid_email x\<close> Some show ?thesis
        by (auto simp add: process_one_duplicate final_state_def skip_def)
    next
      case False
      with \<open>is_valid_email x\<close> Some show ?thesis
        by (auto simp add: process_one_fresh deliver_fields final_state_def[of "Inr _"] skip_def simp del: insert_iff)
    qed
  qed
qed

lemma run_loop_append:
  "run_loop e a c (xs @ ys) st =
     (case run_loop e a c xs st of Inl x \<Rightarrow> Inl x | Inr st' \<Rightarrow> run_loop e a c ys st')"
  by (induction xs arbitrary: st) (auto split: sum.splits)

lemma run_loop_seen:
  "run_loop e a c rcps st = Inr st' \<Longrightarrow>
   seen st' = seen st \<union> {x. is_valid_email x \<and> Some x \<in> fst ` set rcps}"
proof (induction rcps arbitrary: st)
  case Nil
  then show ?case by simp
next
  case (Cons rcp rcps)
  obtain ea nm r where rcp: "rcp = (ea, nm, r)" by (cases rcp)
  from Cons.prems obtain st1 where 1: "process_one e a c rcp st = Inr st1"
    and 2: "run_loop e a c rcps st1 = Inr st'"
    by (auto split: sum.splits)
  from process_one_seen[of e a c ea nm r st] 1 rcp
  have "seen st1 = seen st \<union> {x. ea = Some x \<and> is_valid_email x}" by (simp add: final_state_def)
  with Cons.IH[OF 2] rcp show ?case by force
qed

section \<open>Resources that cannot be read\<close>

lemma read_part_unreadable: "unreadable e p \<Longrightarrow> isl (read_part e p)"
  by (auto simp: unreadable_def read_part_def split: read_result.splits sum.splits)

lemma attach_regular_unreadable: "unreadable e p \<Longrightarrow> fst (attach_regular e msg p) = msg"
  using read_part_unreadable[of e p]
  by (cases "read_part e p") (auto simp: attach_regular_def split: exn.splits)

lemma attach_inline_unreadable:
  "unreadable e p \<Longrightarrow> fst (attach_inline e msg p) = msg \<and> fst (snd (attach_inline e msg p)) = []"
  using read_part_unreadable[of e p]
  by (cases "read_part e p") (auto simp: attach_inline_def split: exn.splits)

lemma attach_regular_logs: "list_all is_resource_log (snd (attach_regular e msg p))"
  by (cases "read_part e p") (auto simp: attach_regular_def is_resource_log_def split: exn.splits)

lemma attach_inline_logs: "list_all is_resource_log (snd (snd (attach_inline e msg p)))"
  by (cases "read_part e p") (auto simp: attach_inline_def is_resource_log_def Let_def split: exn.splits)

lemma inline_loop_readable:
  "(case inline_loop e ps (m, cm, evs) of (m1, cm1, evs1) \<Rightarrow> (m1, cm1)) =
   (case inline_loop e (readable_only e ps) (m, cm, evs') of (m1, cm1, evs1) \<Rightarrow> (m1, cm1))"
proof (induction ps arbitrary: m cm evs evs')
  case Nil
  then show ?case by (simp add: readable_only_def)
next
  case (Cons p ps)
  obtain m' cid lg where ai: "attach_inline e m p = (m', cid, lg)" by (cases "attach_inline e m p")
  show ?case
  proof (cases "unreadable e p")
    case True
    with attach_inline_unreadable[of e p m] ai have "m' = m" "cid = []" by simp_all
    with True ai Cons.IH[of m cm "evs @ lg" evs'] show ?thesis
      by (simp add: readable_only_def)
  next
    case False
    with ai Cons.IH[of m' _ "evs @ lg" "evs' @ lg"] show ?thesis
      by (simp add: readable_only_def)
  qed
qed

lemma attach_loop_readable:
  "fst (attach_loop e ps (m, evs)) = fst (attach_loop e (readable_only e ps) (m, evs'))"
proof (induction ps arbitrary: m evs evs')
  case Nil
  then show ?case by (simp add: readable_only_def)
next
  case (Cons p ps)
  obtain m' lg where ar: "attach_regular e m p = (m', lg)" by (cases "attach_regular e m p")
  show ?case
  proof (cases "unreadable e p")
    case True
    with attach_regular_unreadable[of e p m] ar have "m' = m" by simp
    with True ar Cons.IH[of m "evs @ lg" evs'] show ?thesis
      by (simp add: readable_only_def)
  next
    case False
    with ar Cons.IH[of m' "evs @ lg" "evs' @ lg"] show ?thesis
      by (simp add: readable_only_def)
  qed
qed

lemma inline_loop_logs:
  "list_all is_resource_log evs \<Longrightarrow>
   list_all is_resource_log (snd (snd (inline_loop e ps (m, cm, evs))))"
proof (induction ps arbitrary: m cm evs)
  case Nil
  then show ?case by simp
next
  case (Cons p ps)
  obtain m' cid lg where ai: "attach_inline e m p = (m', cid, lg)" by (cases "attach_inline e m p")
  with attach_inline_logs[of e m p] have "list_all is_resource_log lg" by simp
  with Cons.prems have "list_all is_resource_log (evs @ lg)" by simp
  from Cons.IH[OF this] ai show ?case by simp
qed

lemma attach_loop_logs:
  "list_all is_resource_log evs \<Longrightarrow> list_all is_resource_log (snd (attach_loop e ps (m, evs)))"
proof (induction ps arbitrary: m evs)
  case Nil
  then show ?case by simp
next
  case (Cons p ps)
  obtain m' lg where ar: "attach_regular e m p = (m', lg)" by (cases "attach_regular e m p")
  with attach_regular_logs[of e m p] have "list_all is_resource_log lg" by simp
  with Cons.prems have "list_all is_resource_log (evs @ lg)" by simp
  from Cons.IH[OF this] ar show ?case by simp
qed

text \<open>The message and the content-ID map that \<open>build_message\<close> returns, and its events
  other than the attach functions' log lines.\<close>

lemma build_message_readable:
  "(case build_message e n fn fa ta sj tb hb inl att rp un dir of (m, cm, evs) \<Rightarrow> (m, cm)) =
   (case build_message e n fn fa ta sj tb hb (readable_only e inl) (readable_only e att) rp un dir
    of (m, cm, evs) \<Rightarrow> (m, cm))"
proof -
  let ?m0 = "\<lparr>headers =
                    [(''From'', if fn \<noteq> [] then formataddr e fn fa else fa),
                     (''To'', ta), (''Subject'', sj), (''Message-ID'', make_msgid e n)]
                    @ opt_header ''Reply-To'' rp @ opt_header ''List-Unsubscribe'' un,
                  alt = (if tb \<noteq> [] then [(''plain'', tb)] else [])
                        @ (if hb \<noteq> [] then [(''html'', hb)] else []),
                  parts = []\<rparr>"
  obtain m1 cm1 ev1 where 1: "inline_loop e inl (?m0, Map.empty, []) = (m1, cm1, ev1)"
    by (cases "inline_loop e inl (?m0, Map.empty, [])")
  obtain m1' cm1' ev1' where 2: "inline_loop e (readable_only e inl) (?m0, Map.empty, []) = (m1', cm1', ev1')"
    by (cases "inline_loop e (readable_only e inl) (?m0, Map.empty, [])")
  from inline_loop_readable[of e inl ?m0 Map.empty "[]" "[]"] 1 2 have eq: "m1' = m1" "cm1' = cm1" by simp_all
  obtain m2 ev2 where 3: "attach_loop e att (m1, ev1) = (m2, ev2)" by (cases "attach_loop e att (m1, ev1)")
  obtain m2' ev2' where 4: "attach_loop e (readable_only e att) (m1, ev1') = (m2', ev2')"
    by (cases "attach_loop e (readable_only e att) (m1, ev1')")
  from attach_loop_readable[of e att m1 ev1 ev1'] 3 4 have "m2' = m2" by simp
  with 1 2 3 4 eq show ?thesis by (simp add: build_message_def Let_def)
qed


lemma save_eml_not_resource_log: "filter (\<lambda>ev. \<not> is_resource_log ev) (save_eml e n ta dir m) = save_eml e n ta dir m"
  by (simp add: save_eml_def is_resource_log_def Let_def)

lemma filter_resource_logs: "list_all is_resource_log lg \<Longrightarrow> filter (\<lambda>ev. \<not> is_resource_log ev) lg = []"
  by (induction lg) auto

lemma build_message_events:
  assumes "build_message e n fn fa ta sj tb hb inl att rp un dir = (m, cm, evs)"
  shows "\<exists>lg. list_all is_resource_log lg \<and> evs = lg @ save_eml e n ta dir m"
proof -
  let ?m0 = "\<lparr>headers =
                    [(''From'', if fn \<noteq> [] then formataddr e fn fa else fa),
                     (''To'', ta), (''Subject'', sj), (''Message-ID'', make_msgid e n)]
                    @ opt_header ''Reply-To'' rp @ opt_header ''List-Unsubscribe'' un,
                  alt = (if tb \<noteq> [] then [(''plain'', tb)] else [])
                        @ (if hb \<noteq> [] then [(''html'', hb)] else []),
                  parts = []\<rparr>"
  obtain m1 cm1 ev1 where 1: "inline_loop e inl (?m0, Map.empty, []) = (m1, cm1, ev1)"
    by (cases "inline_loop e inl (?m0, Map.empty, [])")
  obtain m2 ev2 where 2: "attach_loop e att (m1, ev1) = (m2, ev2)" by (cases "attach_loop e att (m1, ev1)")
  from inline_loop_logs[of "[]" e inl ?m0 Map.empty] 1 have "list_all is_resource_log ev1" by simp
  from attach_loop_logs[OF this, of e att m1] 2 have "list_all is_resource_log ev2" by simp
  moreover from assms 1 2 have "m = m2 \<and> evs = ev2 @ save_eml e n ta dir m2"
    by (auto simp add: build_message_def Let_def)
  ultimately show ?thesis by blast
qed

lemma build_message_quiet_events:
  assumes "build_message e n fn fa ta sj tb hb inl att rp un dir = (m, cm, evs)"
  shows "filter (\<lambda>ev. \<not> is_resource_log ev) evs = save_eml e n ta dir m"
  using build_message_events[OF assms]
  by (auto simp: filter_resource_logs save_eml_not_resource_log)

lemma quiet_log: "quiet (log evs st) = log (filter (\<lambda>ev. \<not> is_resource_log ev) evs) (quiet st)"
  by (simp add: quiet_def log_def)

lemma quiet_dispatch: "quiet (dispatch e a c n addr msg st) = dispatch e a c n addr msg (quiet st)"
  by (simp add: dispatch_def quiet_def log_def skip_def Let_def is_resource_log_def split: option.splits)

lemma dispatch_args_cong:
  "dry_run a' = dry_run a \<Longrightarrow> dispatch e a' c n addr msg st = dispatch e a c n addr msg st"
  by (simp add: dispatch_def)

lemma deliver_readable:
  "quiet_result (deliver e a c n addr nm r st) =
   quiet_result (deliver e (a\<lparr>inline := Some (readable_only e (or_list (inline a))),
                              attach := Some (readable_only e (or_list (attach a)))\<rparr>) c n addr nm r st)"
proof -
  let ?a' = "a\<lparr>inline := Some (readable_only e (or_list (inline a))),
               attach := Some (readable_only e (or_list (attach a)))\<rparr>"
  let ?vars = "variables_of nm addr r"
  let ?rt = "if c_template_text c \<noteq> [] then render_template (c_template_text c) ?vars else Inr []"
  let ?rh = "if c_template_html c \<noteq> [] then render_template (c_template_html c) ?vars else Inr []"
  show ?thesis
  proof (cases ?rt)
    case (Inl x)
    then show ?thesis by (simp add: deliver_def Let_def split: prod.splits)
  next
    case (Inr tb)
    note rt = this
    show ?thesis
    proof (cases ?rh)
      case (Inl x)
      with rt show ?thesis by (simp add: deliver_def Let_def split: prod.splits)
    next
      case (Inr hb)
      let ?fa = "or_str (or_else (from_addr a) (c_username c)) []"
      let ?b = "build_message e n (from_name a) ?fa addr (subject a) tb hb
          (or_list (inline a)) (or_list (attach a)) (reply_to a) (unsubscribe a) (save_eml_dir a)"
      let ?b' = "build_message e n (from_name a) ?fa addr (subject a) tb hb
          (readable_only e (or_list (inline a))) (readable_only e (or_list (attach a)))
          (reply_to a) (unsubscribe a) (save_eml_dir a)"
      obtain m cm evs where b: "?b = (m, cm, evs)" by (cases ?b)
      obtain m' cm' evs' where b': "?b' = (m', cm', evs')" by (cases ?b')
      from build_message_readable[of e n "from_name a" ?fa addr "subject a" tb hb
             "or_list (inline a)" "or_list (attach a)" "reply_to a" "unsubscribe a" "save_eml_dir a"] b b'
      have mm: "m' = m" by simp
      have q: "filter (\<lambda>ev. \<not> is_resource_log ev) evs = filter (\<lambda>ev. \<not> is_resource_log ev) evs'"
        using build_message_quiet_events[OF b] build_message_quiet_events[OF b'] mm by simp
      have l: "deliver e a c n addr nm r st = Inr (dispatch e a c n addr m (log evs st))"
        using rt Inr b by (simp add: deliver_def Let_def)
      have r: "deliver e ?a' c n addr nm r st = Inr (dispatch e a c n addr m (log evs' st))"
      proof -
        have f: "\<And>l. or_list (Some l) = l"
          by (simp add: or_list_def)
        have d: "\<And>m s. dispatch e ?a' c n addr m s = dispatch e a c n addr m s"
          by (rule dispatch_args_cong) simp
        show ?thesis using rt Inr b' mm by (simp add: deliver_def Let_def f d)
      qed
      show ?thesis unfolding l r by (simp add: quiet_result_def quiet_dispatch quiet_log q)
    qed
  qed
qed

text \<open>
  Claim C6: a resource whose file is missing, or cannot be read for another reason, never
  makes an attach function raise and never stops the construction of the message.
  \<open>attach_regular\<close> and \<open>attach_inline\<close> return the message unchanged (and the inline
  one returns no content-ID); \<open>build_message\<close> returns the message and the content-ID
  map it returns when the unreadable paths are left out of both lists; and the rest of
  the loop body for that recipient ends in the same state, up to the log lines of the
  attach functions.
\<close>

theorem C6_attachment_resilience:
  "(unreadable e p \<longrightarrow>
      fst (attach_regular e msg p) = msg \<and>
      fst (attach_inline e msg p) = msg \<and> fst (snd (attach_inline e msg p)) = []) \<and>
   (case build_message e n fn fa ta sj tb hb inl att rp un dir of (m, cm, evs) \<Rightarrow> (m, cm)) =
   (case build_message e n fn fa ta sj tb hb (readable_only e inl) (readable_only e att) rp un dir
    of (m, cm, evs) \<Rightarrow> (m, cm)) \<and>
   quiet_result (deliver e a c k addr nm r st) =
   quiet_result (deliver e (a\<lparr>inline := Some (readable_only e (or_list (inline a))),
                              attach := Some (readable_only e (or_list (attach a)))\<rparr>) c k addr nm r st)"
proof (intro conjI impI)
  assume u: "unreadable e p"
  show "fst (attach_regular e msg p) = msg" using u by (rule attach_regular_unreadable)
  show "fst (attach_inline e msg p) = msg" using attach_inline_unreadable[OF u] by simp
  show "fst (snd (attach_inline e msg p)) = []" using attach_inline_unreadable[OF u] by simp
qed (rule build_message_readable deliver_readable)+

theorem C6_attachment_resilience_witness:
  "unreadable example_env ''logo.png'' \<and>
   fst (attach_regular example_env \<lparr>headers = [], alt = [], parts = []\<rparr> ''logo.png'')
     = \<lparr>headers = [], alt = [], parts = []\<rparr> \<and>
   fst (attach_inline example_env \<lparr>headers = [], alt = [], parts = []\<rparr> ''logo.png'')
     = \<lparr>headers = [], alt = [], parts = []\<rparr> \<and>
   fst (snd (attach_inline example_env \<lparr>headers = [], alt = [], parts = []\<rparr> ''logo.png'')) = []"
  using C6_attachment_resilience
    [where e = example_env and p = "''logo.png''" and msg = "\<lparr>headers = [], alt = [], parts = []\<rparr>"]
  by (simp add: unreadable_def example_env_def)

section \<open>EML persistence\<close>


















lemma deliver_Inr:
  assumes "deliver e a c n addr nm r st = Inr st'"
  shows "\<exists>m lg. list_all is_resource_log lg \<and>
           st' = dispatch e a c n addr m (log (lg @ save_eml e n addr (save_eml_dir a) m) st)"
proof -
  let ?vars = "variables_of nm addr r"
  let ?rt = "if c_template_text c \<noteq> [] then render_template (c_template_text c) ?vars else Inr []"
  let ?rh = "if c_template_html c \<noteq> [] then render_template (c_template_html c) ?vars else Inr []"
  from assms obtain tb where rt: "?rt = Inr tb"
    by (cases ?rt) (auto simp: deliver_def Let_def split: prod.splits)
  from assms rt obtain hb where rh: "?rh = Inr hb"
    by (cases ?rh) (auto simp: deliver_def Let_def split: prod.splits)
  let ?fa = "or_str (or_else (from_addr a) (c_username c)) []"
  let ?bm = "build_message e n (from_name a) ?fa addr (subject a) tb hb
          (or_list (inline a)) (or_list (attach a)) (reply_to a) (unsubscribe a) (save_eml_dir a)"
  obtain m cm evs where b: "?bm = (m, cm, evs)" by (cases ?bm)
  from build_message_events[OF b] obtain lg where lg: "list_all is_resource_log lg"
    "evs = lg @ save_eml e n addr (save_eml_dir a) m" by blast
  have "deliver e a c n addr nm r st = Inr (dispatch e a c n addr m (log evs st))"
    using rt rh b by (simp add: deliver_def Let_def)
  with assms lg show ?thesis by auto
qed

lemma deliver_isl:
  "isl (deliver e a c n addr nm r st) =
     (isl (if c_template_text c \<noteq> [] then render_template (c_template_text c) (variables_of nm addr r)
           else Inr []) \<or>
      isl (if c_template_html c \<noteq> [] then render_template (c_template_html c) (variables_of nm addr r)
           else Inr []))"
  by (auto simp: deliver_def Let_def split: sum.splits prod.splits)

text \<open>
  Claim C10: persistence happens while the message is built, before dispatch. When a save
  directory is configured, the file can be written and both bodies render, the EML file
  of the recipient is written before anything is handed to the transport: in a dry run it
  is followed by the dry-run line and the recipient counts as sent; in a live run it is
  followed by the send, and when the send fails the recipient counts as skipped while the
  file stays written.
\<close>

theorem C10_eml_before_dispatch:
  assumes "truthy (save_eml_dir a)"
      and "eml_write_ok e (path_join (or_str (save_eml_dir a) []) (eml_filename addr (time_now e n)))"
      and "\<not> isl (deliver e a c n addr nm r st)"
  shows "\<exists>m lg. list_all is_resource_log lg \<and>
          (let dest = path_join (or_str (save_eml_dir a) []) (eml_filename addr (time_now e n));
               st' = final_state (deliver e a c n addr nm r st)
           in if dry_run a then
                trace st' = trace st @ lg @ [WriteEml dest m, LogDryRun addr] \<and>
                sent st' = sent st + 1 \<and> skipped st' = skipped st
              else if smtp_send_ok e n then
                (\<exists>post. trace st' = trace st @ lg @ [WriteEml dest m, SmtpSend m, LogSent addr] @ post) \<and>
                sent st' = sent st + 1
              else
                trace st' = trace st @ lg @ [WriteEml dest m, SmtpSend m, LogSendFailed addr] \<and>
                sent st' = sent st \<and> skipped st' = skipped st + 1)"
proof -
  from assms(3) obtain st' where d: "deliver e a c n addr nm r st = Inr st'"
    by (cases "deliver e a c n addr nm r st") auto
  let ?dest = "path_join (or_str (save_eml_dir a) []) (eml_filename addr (time_now e n))"
  from deliver_Inr[OF d] obtain m lg where lg: "list_all is_resource_log lg"
    and st': "st' = dispatch e a c n addr m (log (lg @ save_eml e n addr (save_eml_dir a) m) st)"
    by blast
  have s: "save_eml e n addr (save_eml_dir a) m = [WriteEml ?dest m]"
    using assms(1,2) by (simp add: save_eml_def Let_def)
  have fs: "final_state (deliver e a c n addr nm r st) = st'" using d by (simp add: final_state_def)
  have "if dry_run a then
                trace st' = trace st @ lg @ [WriteEml ?dest m, LogDryRun addr] \<and>
                sent st' = sent st + 1 \<and> skipped st' = skipped st
              else if smtp_send_ok e n then
                (\<exists>post. trace st' = trace st @ lg @ [WriteEml ?dest m, SmtpSend m, LogSent addr] @ post) \<and>
                sent st' = sent st + 1
              else
                trace st' = trace st @ lg @ [WriteEml ?dest m, SmtpSend m, LogSendFailed addr] \<and>
                sent st' = sent st \<and> skipped st' = skipped st + 1"
    unfolding st' s
    by (simp add: dispatch_def log_def skip_def Let_def split: option.splits)
  with lg show ?thesis
    unfolding Let_def fs by (intro exI[of _ m] exI[of _ lg] conjI)
qed


theorem C10_eml_before_dispatch_witness:
  "truthy (save_eml_dir (live_args\<lparr>save_eml_dir := Some ''out''\<rparr>)) \<and>
   eml_write_ok refusing_env ''out/ann_example.com_1700000000.eml'' \<and>
   \<not> isl (deliver refusing_env (live_args\<lparr>save_eml_dir := Some ''out''\<rparr>) example_conf 0
            ''ann@example.com'' ''Ann'' [] init_state) \<and>
   (\<exists>m lg. list_all is_resource_log lg \<and>
      trace (final_state (deliver refusing_env (live_args\<lparr>save_eml_dir := Some ''out''\<rparr>)
               example_conf 0 ''ann@example.com'' ''Ann'' [] init_state)) =
        trace init_state @ lg @
          [WriteEml ''out/ann_example.com_1700000000.eml'' m, SmtpSend m,
           LogSendFailed ''ann@example.com''] \<and>
      skipped (final_state (deliver refusing_env (live_args\<lparr>save_eml_dir := Some ''out''\<rparr>)
               example_conf 0 ''ann@example.com'' ''Ann'' [] init_state)) = skipped init_state + 1)"
proof -
  let ?a = "live_args\<lparr>save_eml_dir := Some ''out''\<rparr>"
  have d: "path_join (or_str (save_eml_dir ?a) []) (eml_filename ''ann@example.com'' (time_now refusing_env 0))
             = ''out/ann_example.com_1700000000.eml''"
    by (simp add: refusing_env_def example_env_def or_str_def path_join_def eml_filename_def
          str_int_def str_nat.simps sanitize_def safe_char_def)
  have h1: "truthy (save_eml_dir ?a)" by simp
  have h2: "eml_write_ok refusing_env
              (path_join (or_str (save_eml_dir ?a) []) (eml_filename ''ann@example.com'' (time_now refusing_env 0)))"
    by (simp add: refusing_env_def example_env_def)
  have h3: "\<not> isl (deliver refusing_env ?a example_conf 0 ''ann@example.com'' ''Ann'' [] init_state)"
  proof -
    have "\<not> isl (render_template default_text (variables_of ''Ann'' ''ann@example.com'' []))"
      by code_simp
    moreover have "\<not> isl (render_template default_html (variables_of ''Ann'' ''ann@example.com'' []))"
      by code_simp
    ultimately show ?thesis by (simp add: deliver_isl example_conf_def)
  qed
  have f: "\<not> dry_run ?a" "\<not> smtp_send_ok refusing_env 0"
    by (simp_all add: live_args_def default_args_def refusing_env_def)
  from C10_eml_before_dispatch[OF h1 h2 h3] f h1 h2 h3 show ?thesis
    unfolding d Let_def by auto
qed

section \<open>Template rendering\<close>

lemma emit_emit: "emit a (emit b r) = emit (a @ b) r"
  by (cases r) (simp_all add: emit_def)

lemma emit_Nil: "emit [] r = r"
  by (cases r) (simp_all add: emit_def)

lemma fmt_text:
  "fmt vs Text (concat (map esc_char s) @ rest) = emit s (fmt vs Text rest)"
proof (induction s)
  case Nil
  then show ?case by (simp add: emit_Nil)
next
  case (Cons c s)
  then show ?case by (simp add: esc_char_def emit_emit)
qed

lemma fmt_field:
  "list_all (\<lambda>c. c \<notin> set ''{}[.!:'') k \<Longrightarrow>
   fmt vs (Field acc) (k @ CHR ''}'' # rest) =
     (case get_field vs (acc @ k) of Inl x \<Rightarrow> Inl x | Inr v \<Rightarrow> emit v (fmt vs Text rest))"
proof (induction k arbitrary: acc)
  case Nil
  then show ?case by simp
next
  case (Cons c k)
  from Cons.prems have c: "c \<noteq> CHR ''}''" "c \<noteq> CHR ''{''" "c \<notin> set ''[.!:''" and k: "list_all (\<lambda>c. c \<notin> set ''{}[.!:'') k"
    by auto
  have "fmt vs (Field acc) ((c # k) @ CHR ''}'' # rest) = fmt vs (Field (acc @ [c])) (k @ CHR ''}'' # rest)"
    using c by simp
  also have "\<dots> = (case get_field vs ((acc @ [c]) @ k) of Inl x \<Rightarrow> Inl x | Inr v \<Rightarrow> emit v (fmt vs Text rest))"
    by (rule Cons.IH[OF k])
  finally show ?case by simp
qed

lemma get_field_simple:
  "simple_key k \<Longrightarrow> get_field vs k = (case vs k of None \<Rightarrow> Inl (KeyError k) | Some v \<Rightarrow> Inr v)"
  by (simp add: get_field_def simple_key_def)

lemma fmt_var:
  assumes "simple_key k"
  shows "fmt vs Text (CHR ''{'' # k @ CHR ''}'' # rest) =
     (case vs k of None \<Rightarrow> Inl (KeyError k) | Some v \<Rightarrow> emit v (fmt vs Text rest))"
proof -
  from assms obtain c k' where k: "k = c # k'" by (cases k) (auto simp: simple_key_def)
  from assms k have c: "c \<noteq> CHR ''}''" "c \<noteq> CHR ''{''" "c \<notin> set ''[.!:''" and k': "list_all (\<lambda>c. c \<notin> set ''{}[.!:'') k'"
    by (auto simp: simple_key_def)
  have "fmt vs Text (CHR ''{'' # k @ CHR ''}'' # rest) = fmt vs (Field [c]) (k' @ CHR ''}'' # rest)"
    using c k by simp
  also have "\<dots> = (case get_field vs ([c] @ k') of Inl x \<Rightarrow> Inl x | Inr v \<Rightarrow> emit v (fmt vs Text rest))"
    by (rule fmt_field[OF k'])
  also have "get_field vs ([c] @ k') = (case vs k of None \<Rightarrow> Inl (KeyError k) | Some v \<Rightarrow> Inr v)"
    using get_field_simple[OF assms, of vs] k by simp
  finally show ?thesis by (simp split: option.splits)
qed

lemma fmt_seg_text: "fmt vs Text (show_seg (TText s) @ rest) = emit s (fmt vs Text rest)"
  by (simp add: fmt_text)

lemma fmt_seg_var:
  "simple_key k \<Longrightarrow> fmt vs Text (show_seg (TVar k) @ rest) =
     (case vs k of None \<Rightarrow> Inl (KeyError k) | Some v \<Rightarrow> emit v (fmt vs Text rest))"
  using fmt_var[of k vs rest] by simp

lemma fmt_template_ok:
  "list_all simple_key (seg_keys segs) \<Longrightarrow> list_all (\<lambda>k. vs k \<noteq> None) (seg_keys segs) \<Longrightarrow>
   fmt vs Text (show_template segs @ rest) = emit (concat (map (subst_seg vs) segs)) (fmt vs Text rest)"
proof (induction segs)
  case Nil
  then show ?case by (simp add: show_template_def emit_Nil)
next
  case (Cons sg segs)
  show ?case
  proof (cases sg)
    case (TText s)
    with Cons have "fmt vs Text (show_template segs @ rest) = emit (concat (map (subst_seg vs) segs)) (fmt vs Text rest)"
      by simp
    with TText show ?thesis
      using fmt_seg_text[of vs s "show_template segs @ rest"]
      by (simp add: show_template_def emit_emit)
  next
    case (TVar k)
    with Cons.prems obtain v where v: "vs k = Some v" and sk: "simple_key k" by auto
    from TVar Cons have "fmt vs Text (show_template segs @ rest) = emit (concat (map (subst_seg vs) segs)) (fmt vs Text rest)"
      by simp
    with TVar v show ?thesis
      using fmt_seg_var[OF sk, of vs "show_template segs @ rest"]
      by (simp add: show_template_def emit_emit)
  qed
qed

lemma fmt_template_missing:
  assumes "list_all simple_key (seg_keys pre)" "list_all (\<lambda>k. vs k \<noteq> None) (seg_keys pre)"
      and "simple_key k" "vs k = None"
  shows "fmt vs Text (show_template (pre @ TVar k # post) @ rest) = Inl (KeyError k)"
proof -
  have "show_template (pre @ TVar k # post) @ rest
          = show_template pre @ (show_seg (TVar k) @ (show_template post @ rest))"
    by (simp add: show_template_def)
  then have "fmt vs Text (show_template (pre @ TVar k # post) @ rest)
          = emit (concat (map (subst_seg vs) pre)) (fmt vs Text (show_seg (TVar k) @ (show_template post @ rest)))"
    using fmt_template_ok[OF assms(1,2)] by simp
  also have "fmt vs Text (show_seg (TVar k) @ (show_template post @ rest)) = Inl (KeyError k)"
    using fmt_seg_var[OF assms(3), of vs] assms(4) by simp
  finally show ?thesis by (simp add: emit_def)
qed

lemma repr_char_plain:
  "printable c \<Longrightarrow> c \<noteq> CHR 0x27 \<Longrightarrow> c \<noteq> CHR 0x5C \<Longrightarrow> repr_char (CHR 0x27) c = [c]"
  by (auto simp: repr_char_def printable_def)

lemma repr_plain: "plain_key k \<Longrightarrow> concat (map (repr_char (CHR 0x27)) k) = k"
  by (induction k) (simp_all add: plain_key_def repr_char_plain)

lemma plain_key_repr:
  assumes "plain_key k" "k \<noteq> []"
  shows "strip_quote (py_repr k) = k"
proof -
  have nq: "CHR 0x27 \<notin> set k" using assms(1) by (auto simp: plain_key_def list_all_iff)
  then have r: "py_repr k = CHR 0x27 # k @ [CHR 0x27]"
    using repr_plain[OF assms(1)] by (simp add: py_repr_def Let_def)
  from assms(2) nq have h: "hd k \<noteq> CHR 0x27" "last k \<noteq> CHR 0x27"
    by (metis hd_in_set, metis last_in_set)
  from assms(2) h(1) have 1: "dropWhile (\<lambda>c. c = CHR 0x27) (k @ [CHR 0x27]) = k @ [CHR 0x27]"
    by (cases k) simp_all
  from assms(2) h(2) have 2: "dropWhile (\<lambda>c. c = CHR 0x27) (rev k) = rev k"
    by (cases k rule: rev_cases) simp_all
  show ?thesis by (simp add: strip_quote_def r 1 2)
qed


lemma render_template_ok:
  assumes "list_all simple_key (seg_keys segs)" "list_all (\<lambda>k. vs k \<noteq> None) (seg_keys segs)"
  shows "render_template (show_template segs) vs = Inr (concat (map (subst_seg vs) segs))"
  using fmt_template_ok[OF assms, of "[]"]
  by (simp add: render_template_def str_format_def emit_def)

lemma render_template_missing:
  assumes "list_all simple_key (seg_keys pre)" "list_all (\<lambda>k. vs k \<noteq> None) (seg_keys pre)"
      and "simple_key k" "vs k = None"
  shows "render_template (show_template (pre @ TVar k # post)) vs =
           Inl (SystemExit 1, [LogMissingVar (strip_quote (py_repr k))])"
  using fmt_template_missing[OF assms, of post "[]"]
  by (simp add: render_template_def str_format_def)

lemma deliver_render_failure:
  assumes "c_template_text c \<noteq> []"
      and "render_template (c_template_text c) (variables_of nm addr r) = Inl (x, evs)"
  shows "deliver e a c n addr nm r st = Inl (x, log evs st)"
  using assms by (simp add: deliver_def Let_def)

text \<open>
  Claim C4: \<open>render_template\<close> replaces every \<open>{key}\<close> placeholder of a template by
  the value of \<open>key\<close> (keys that \<open>str.format\<close> reads as names). When a placeholder's
  key is absent, the result is no string at all but \<open>sys.exit(1)\<close> after a log line
  that names the key (a plain key is logged as it is); the loop body passes the exit on
  and the loop stops there. The empty template renders to the empty string, and
  \<open>Hi {name}\<close> with \<open>name = Ann\<close> to \<open>Hi Ann\<close>.
\<close>

theorem C4_render:
  "(list_all simple_key (seg_keys segs) \<and> list_all (\<lambda>k. vs k \<noteq> None) (seg_keys segs) \<longrightarrow>
      render_template (show_template segs) vs = Inr (concat (map (subst_seg vs) segs))) \<and>
   (list_all simple_key (seg_keys pre) \<and> list_all (\<lambda>k. vs k \<noteq> None) (seg_keys pre) \<and>
    simple_key k \<and> vs k = None \<longrightarrow>
      render_template (show_template (pre @ TVar k # post)) vs =
        Inl (SystemExit 1, [LogMissingVar (strip_quote (py_repr k))]) \<and>
      (plain_key k \<longrightarrow> strip_quote (py_repr k) = k)) \<and>
   (c_template_text c \<noteq> [] \<and>
    render_template (c_template_text c) (variables_of nm addr r) = Inl (x, evs) \<longrightarrow>
      deliver e a c n addr nm r st = Inl (x, log evs st) \<and>
      (process_one e a c rcp st0 = Inl (x, log evs st) \<longrightarrow>
         run_loop e a c (rcp # rcps) st0 = Inl (x, log evs st))) \<and>
   render_template [] vs = Inr [] \<and>
   render_template ''Hi {name}'' [''name'' \<mapsto> ''Ann''] = Inr ''Hi Ann''"
proof (intro conjI impI)
  show "render_template [] vs = Inr []"
    by (simp add: render_template_def str_format_def)
  show "render_template ''Hi {name}'' [''name'' \<mapsto> ''Ann''] = Inr ''Hi Ann''"
    by (simp add: render_template_def str_format_def get_field_def is_digit_def emit_def)
next
  assume "list_all simple_key (seg_keys segs) \<and> list_all (\<lambda>k. vs k \<noteq> None) (seg_keys segs)"
  then show "render_template (show_template segs) vs = Inr (concat (map (subst_seg vs) segs))"
    using render_template_ok by blast
next
  assume h: "list_all simple_key (seg_keys pre) \<and> list_all (\<lambda>k. vs k \<noteq> None) (seg_keys pre) \<and>
    simple_key k \<and> vs k = None"
  then show "render_template (show_template (pre @ TVar k # post)) vs =
        Inl (SystemExit 1, [LogMissingVar (strip_quote (py_repr k))])"
    using render_template_missing by blast
  assume "plain_key k"
  moreover from h have "k \<noteq> []" by (simp add: simple_key_def)
  ultimately show "strip_quote (py_repr k) = k" by (rule plain_key_repr)
next
  assume h: "c_template_text c \<noteq> [] \<and>
    render_template (c_template_text c) (variables_of nm addr r) = Inl (x, evs)"
  then show "deliver e a c n addr nm r st = Inl (x, log evs st)"
    using deliver_render_failure by blast
  assume "process_one e a c rcp st0 = Inl (x, log evs st)"
  then show "run_loop e a c (rcp # rcps) st0 = Inl (x, log evs st)" by simp
qed


theorem C4_render_witness:
  "simple_key ''name'' \<and> simple_key ''missing'' \<and> plain_key ''missing'' \<and>
   render_template (show_template [TText ''Hi '', TVar ''name'']) [''name'' \<mapsto> ''Ann''] = Inr ''Hi Ann'' \<and>
   render_template ''Hi {missing}'' (variables_of ''Ann'' ''a@b.com'' []) =
     Inl (SystemExit 1, [LogMissingVar ''missing'']) \<and>
   deliver example_env default_args (example_conf\<lparr>c_template_text := ''Hi {missing}''\<rparr>) 0
       ''a@b.com'' ''Ann'' [] init_state =
     Inl (SystemExit 1, log [LogMissingVar ''missing''] init_state)"
proof -
  let ?vs = "variables_of ''Ann'' ''a@b.com'' []"
  let ?c = "example_conf\<lparr>c_template_text := ''Hi {missing}''\<rparr>"
  have k: "simple_key ''name''" "simple_key ''missing''"
    by (simp_all add: simple_key_def is_digit_def)
  have p: "plain_key ''missing''" by (simp add: plain_key_def printable_def)
  have s1: "show_template [TText ''Hi '', TVar ''name''] = ''Hi {name}''"
       and s2: "show_template ([TText ''Hi ''] @ TVar ''missing'' # []) = ''Hi {missing}''"
    by (simp_all add: show_template_def esc_char_def)
  note w1 = C4_render [where segs = "[TText ''Hi '', TVar ''name'']" and vs = "[''name'' \<mapsto> ''Ann'']",
                       THEN conjunct1]
  have a: "render_template (show_template [TText ''Hi '', TVar ''name'']) [''name'' \<mapsto> ''Ann''] = Inr ''Hi Ann''"
    using w1 k by simp
  note w2 = C4_render [where pre = "[TText ''Hi '']" and k = "''missing''" and post = "[]" and vs = ?vs,
                       THEN conjunct2, THEN conjunct1]
  have m: "?vs ''missing'' = None" by (simp add: variables_of_def)
  have b: "render_template ''Hi {missing}'' ?vs = Inl (SystemExit 1, [LogMissingVar ''missing''])"
    using w2 k p m by (simp add: s2[simplified])
  note w3 = C4_render [where c = ?c and nm = "''Ann''" and addr = "''a@b.com''" and r = "[]"
                         and x = "SystemExit 1" and evs = "[LogMissingVar ''missing'']"
                         and e = example_env and a = default_args and n = 0 and st = init_state,
                       THEN conjunct2, THEN conjunct2, THEN conjunct1]
  have d: "deliver example_env default_args ?c 0 ''a@b.com'' ''Ann'' [] init_state =
             Inl (SystemExit 1, log [LogMissingVar ''missing''] init_state)"
    using w3 b by simp
  from k p a b d show ?thesis by (simp only: simp_thms)
qed

text \<open>A whole run whose text template is \<open>Hi {missing}\<close>: it ends with exit status 1 at
  the first recipient.\<close>

lemma missing_variable_aborts_run:
  "send_messages template_env
     (default_args\<lparr>to := Some ''a@b.com'', dry_run := True, template_text := Some ''t.txt''\<rparr>) =
   Inl (SystemExit 1, log [LogDryRunMode, LogMissingVar ''missing'']
                          (init_state\<lparr>total := 1, seen := {''a@b.com''}\<rparr>))"
  by code_simp

section \<open>The consent gate\<close>


lemma single_recipient_not_gated:
  assumes "\<not> truthy (csv a)" "is_valid_email x" "x \<notin> seen st"
  shows "process_one e a c (Some x, nm, r) st =
           deliver e a c (total st) x nm r (st\<lparr>total := total st + 1, seen := insert x (seen st)\<rparr>)"
  using assms by (simp add: process_one_fresh)



section \<open>Deduplication and the seen set\<close>

text \<open>The transport trace: every address handed to the transport is in the seen set, and
  no address is handed over twice.\<close>

lemma smtp_recipients_append: "smtp_recipients (xs @ ys) = smtp_recipients xs @ smtp_recipients ys"
  by (simp add: smtp_recipients_def)

lemma smtp_recipients_resource_logs: "list_all is_resource_log lg \<Longrightarrow> smtp_recipients lg = []"
  by (induction lg) (auto simp: smtp_recipients_def is_resource_log_def split: event.splits)

lemma smtp_recipients_save_eml: "smtp_recipients (save_eml e n ta dir m) = []"
  by (simp add: save_eml_def smtp_recipients_def Let_def)

lemma attach_regular_headers: "headers (fst (attach_regular e msg p)) = headers msg"
  by (cases "read_part e p") (auto simp: attach_regular_def msg_attach_def split: exn.splits)

lemma attach_inline_headers: "headers (fst (attach_inline e msg p)) = headers msg"
  by (cases "read_part e p") (auto simp: attach_inline_def msg_attach_def Let_def split: exn.splits)

lemma inline_loop_headers: "headers (fst (inline_loop e ps (m, cm, evs))) = headers m"
proof (induction ps arbitrary: m cm evs)
  case Nil
  then show ?case by simp
next
  case (Cons p ps)
  obtain m' cid lg where ai: "attach_inline e m p = (m', cid, lg)" by (cases "attach_inline e m p")
  with attach_inline_headers[of e m p] have "headers m' = headers m" by simp
  with Cons.IH[of m'] ai show ?case by simp
qed

lemma attach_loop_headers: "headers (fst (attach_loop e ps (m, evs))) = headers m"
proof (induction ps arbitrary: m evs)
  case Nil
  then show ?case by simp
next
  case (Cons p ps)
  obtain m' lg where ar: "attach_regular e m p = (m', lg)" by (cases "attach_regular e m p")
  with attach_regular_headers[of e m p] have "headers m' = headers m" by simp
  with Cons.IH[of m'] ar show ?case by simp
qed

lemma build_message_to:
  assumes "build_message e n fn fa ta sj tb hb inl att rp un dir = (m, cm, evs)"
  shows "to_header m = ta"
proof -
  let ?m0 = "\<lparr>headers =
                    [(''From'', if fn \<noteq> [] then formataddr e fn fa else fa),
                     (''To'', ta), (''Subject'', sj), (''Message-ID'', make_msgid e n)]
                    @ opt_header ''Reply-To'' rp @ opt_header ''List-Unsubscribe'' un,
                  alt = (if tb \<noteq> [] then [(''plain'', tb)] else [])
                        @ (if hb \<noteq> [] then [(''html'', hb)] else []),
                  parts = []\<rparr>"
  obtain m1 cm1 ev1 where 1: "inline_loop e inl (?m0, Map.empty, []) = (m1, cm1, ev1)"
    by (cases "inline_loop e inl (?m0, Map.empty, [])")
  obtain m2 ev2 where 2: "attach_loop e att (m1, ev1) = (m2, ev2)" by (cases "attach_loop e att (m1, ev1)")
  from inline_loop_headers[of e inl ?m0 Map.empty "[]"] 1 have "headers m1 = headers ?m0" by simp
  with attach_loop_headers[of e att m1 ev1] 2 have "headers m2 = headers ?m0" by simp
  moreover from assms 1 2 have "m = m2" by (auto simp add: build_message_def Let_def)
  ultimately show ?thesis by (simp add: to_header_def row_get_def)
qed

lemma dispatch_recipients:
  "to_header m = addr \<Longrightarrow>
   smtp_recipients (trace (dispatch e a c n addr m st)) =
     smtp_recipients (trace st) @ (if dry_run a then [] else [addr])"
  by (simp add: dispatch_def log_def skip_def Let_def smtp_recipients_def split: option.splits)

lemma render_events_no_send:
  "render_template t vs = Inl (x, evs) \<Longrightarrow> smtp_recipients evs = []"
  by (auto simp: render_template_def smtp_recipients_def split: sum.splits exn.splits)

lemma deliver_Inr_to:
  assumes "deliver e a c n addr nm r st = Inr st'"
  shows "\<exists>m lg. list_all is_resource_log lg \<and> to_header m = addr \<and>
           st' = dispatch e a c n addr m (log (lg @ save_eml e n addr (save_eml_dir a) m) st)"
proof -
  let ?vars = "variables_of nm addr r"
  let ?rt = "if c_template_text c \<noteq> [] then render_template (c_template_text c) ?vars else Inr []"
  let ?rh = "if c_template_html c \<noteq> [] then render_template (c_template_html c) ?vars else Inr []"
  from assms obtain tb where rt: "?rt = Inr tb"
    by (cases ?rt) (auto simp: deliver_def Let_def split: prod.splits)
  from assms rt obtain hb where rh: "?rh = Inr hb"
    by (cases ?rh) (auto simp: deliver_def Let_def split: prod.splits)
  let ?fa = "or_str (or_else (from_addr a) (c_username c)) []"
  let ?bm = "build_message e n (from_name a) ?fa addr (subject a) tb hb
          (or_list (inline a)) (or_list (attach a)) (reply_to a) (unsubscribe a) (save_eml_dir a)"
  obtain m cm evs where b: "?bm = (m, cm, evs)" by (cases ?bm)
  from build_message_events[OF b] obtain lg where lg: "list_all is_resource_log lg"
    "evs = lg @ save_eml e n addr (save_eml_dir a) m" by blast
  have "deliver e a c n addr nm r st = Inr (dispatch e a c n addr m (log evs st))"
    using rt rh b by (simp add: deliver_def Let_def)
  with assms lg build_message_to[OF b] show ?thesis by auto
qed

lemma deliver_Inl:
  assumes "deliver e a c n addr nm r st = Inl (x, st')"
  shows "\<exists>evs. st' = log evs st \<and> (evs = [] \<or> (\<exists>k. evs = [LogMissingVar k]))"
proof -
  let ?vars = "variables_of nm addr r"
  let ?rt = "if c_template_text c \<noteq> [] then render_template (c_template_text c) ?vars else Inr []"
  let ?rh = "if c_template_html c \<noteq> [] then render_template (c_template_html c) ?vars else Inr []"
  have re: "\<And>t vs x evs. render_template t vs = Inl (x, evs) \<Longrightarrow> evs = [] \<or> (\<exists>k. evs = [LogMissingVar k])"
    by (auto simp: render_template_def split: sum.splits exn.splits)
  show ?thesis
  proof (cases ?rt)
    case (Inl xe)
    obtain x1 e1 where "xe = (x1, e1)" by (cases xe)
    with Inl assms have "st' = log e1 st" by (simp add: deliver_def Let_def)
    moreover from Inl \<open>xe = (x1, e1)\<close> have "render_template (c_template_text c) ?vars = Inl (x1, e1)"
      by (simp split: if_splits)
    ultimately show ?thesis using re by blast
  next
    case (Inr tb)
    show ?thesis
    proof (cases ?rh)
      case (Inl xe)
      obtain x1 e1 where xe: "xe = (x1, e1)" by (cases xe)
      with Inl Inr assms have "st' = log e1 st" by (simp add: deliver_def Let_def)
      moreover from Inl xe have "render_template (c_template_html c) ?vars = Inl (x1, e1)"
        by (simp split: if_splits)
      ultimately show ?thesis using re by blast
    next
      case (Inr hb)
      with \<open>?rt = Inr tb\<close> assms show ?thesis
        by (simp add: deliver_def Let_def split: prod.splits)
    qed
  qed
qed

lemma deliver_recipients:
  "smtp_recipients (trace (final_state (deliver e a c n addr nm r st))) =
     smtp_recipients (trace st) \<or>
   smtp_recipients (trace (final_state (deliver e a c n addr nm r st))) =
     smtp_recipients (trace st) @ [addr]"
proof (cases "deliver e a c n addr nm r st")
  case (Inl xs)
  obtain x st' where xs: "xs = (x, st')" by (cases xs)
  from deliver_Inl[of e a c n addr nm r st x st'] Inl xs
  obtain evs where "st' = log evs st" "evs = [] \<or> (\<exists>k. evs = [LogMissingVar k])" by blast
  then have "smtp_recipients (trace st') = smtp_recipients (trace st)"
    by (auto simp: log_def smtp_recipients_def)
  then show ?thesis using Inl xs by (simp add: final_state_def)
next
  case (Inr st')
  from deliver_Inr_to[OF Inr] obtain m lg where lg: "list_all is_resource_log lg"
    and t: "to_header m = addr"
    and st': "st' = dispatch e a c n addr m (log (lg @ save_eml e n addr (save_eml_dir a) m) st)"
    by blast
  have "smtp_recipients (trace (log (lg @ save_eml e n addr (save_eml_dir a) m) st)) = smtp_recipients (trace st)"
    by (simp add: log_def smtp_recipients_append smtp_recipients_resource_logs[OF lg] smtp_recipients_save_eml)
  then have "smtp_recipients (trace st') = smtp_recipients (trace st) @ (if dry_run a then [] else [addr])"
    unfolding st' by (simp add: dispatch_recipients[OF t])
  then show ?thesis using Inr by (simp add: final_state_def)
qed

lemma process_one_recipients:
  assumes "set (smtp_recipients (trace st)) \<subseteq> seen st" "distinct (smtp_recipients (trace st))"
  shows "set (smtp_recipients (trace (final_state (process_one e a c rcp st))))
           \<subseteq> seen (final_state (process_one e a c rcp st)) \<and>
         distinct (smtp_recipients (trace (final_state (process_one e a c rcp st))))"
proof -
  obtain ea nm r where rcp: "rcp = (ea, nm, r)" by (cases rcp)
  have skipc: "\<And>ev s. (\<And>m. ev \<noteq> SmtpSend m) \<Longrightarrow> smtp_recipients (trace (skip ev s)) = smtp_recipients (trace s)"
    by (auto simp: skip_def smtp_recipients_def split: event.splits)
  show ?thesis
  proof (cases ea)
    case None
    with rcp assms show ?thesis
      by (simp add: process_one_None final_state_def skipc) (simp add: skip_def)
  next
    case (Some x)
    show ?thesis
    proof (cases "is_valid_email x")
      case False
      with Some rcp assms show ?thesis
        by (simp add: process_one_invalid final_state_def skipc) (simp add: skip_def)
    next
      case True
      show ?thesis
      proof (cases "x \<in> seen st")
        case True
        with \<open>is_valid_email x\<close> Some rcp assms show ?thesis
          by (simp add: process_one_duplicate final_state_def skipc) (simp add: skip_def)
      next
        case False
        let ?st2 = "st\<lparr>total := total st + 1, seen := insert x (seen st)\<rparr>"
        have nx: "x \<notin> set (smtp_recipients (trace st))" using False assms(1) by blast
        show ?thesis
        proof (cases "require_consent a \<and> truthy (csv a) \<and> consent_value a r \<notin> {''1'', ''true'', ''yes'', ''y''}")
          case True
          with False \<open>is_valid_email x\<close> Some rcp assms show ?thesis
            by (simp add: process_one_fresh final_state_def skipc) (auto simp add: skip_def)
        next
          case nogate: False
          have p: "process_one e a c rcp st = deliver e a c (total st) x nm r ?st2"
            unfolding rcp Some process_one_fresh[OF \<open>is_valid_email x\<close> False] using nogate
            by (simp only: if_False)
          have sn: "seen (final_state (deliver e a c (total st) x nm r ?st2)) = insert x (seen st)"
            by (simp add: deliver_fields)
          from deliver_recipients[of e a c "total st" x nm r ?st2]
          show ?thesis unfolding p sn using assms nx by auto
        qed
      qed
    qed
  qed
qed

lemma run_loop_recipients:
  assumes "set (smtp_recipients (trace st)) \<subseteq> seen st" "distinct (smtp_recipients (trace st))"
  shows "set (smtp_recipients (trace (final_state (run_loop e a c rcps st))))
           \<subseteq> seen (final_state (run_loop e a c rcps st)) \<and>
         distinct (smtp_recipients (trace (final_state (run_loop e a c rcps st))))"
  using assms
proof (induction rcps arbitrary: st)
  case Nil
  then show ?case by (simp add: final_state_def)
next
  case (Cons rcp rcps)
  note p = process_one_recipients[OF Cons.prems, of e a c rcp]
  show ?case
  proof (cases "process_one e a c rcp st")
    case (Inl xs)
    with p show ?thesis by (simp add: final_state_def)
  next
    case (Inr st1)
    with p have "set (smtp_recipients (trace st1)) \<subseteq> seen st1" "distinct (smtp_recipients (trace st1))"
      by (simp_all add: final_state_def)
    from Cons.IH[OF this] Inr show ?thesis by simp
  qed
qed

lemma startup_events_no_send:
  "startup e a = Inl (x, evs) \<Longrightarrow> smtp_recipients evs = []"
  "startup e a = Inr (c, evs) \<Longrightarrow> smtp_recipients evs = []"
  by (auto simp: startup_def Let_def load_template_def load_text_def smtp_recipients_def
           split: sum.splits if_splits option.splits prod.splits)

lemma send_messages_distinct:
  "distinct (smtp_recipients (trace (final_state (send_messages e a))))"
proof (cases "startup e a")
  case (Inl xe)
  obtain x evs where "xe = (x, evs)" by (cases xe)
  with Inl startup_events_no_send(1)[of e a x evs] show ?thesis
    by (simp add: send_messages_def final_state_def log_def init_state_def)
next
  case (Inr ce)
  obtain c evs where ce: "ce = (c, evs)" by (cases ce)
  with Inr startup_events_no_send(2)[of e a c evs] have ns: "smtp_recipients evs = []" by simp
  show ?thesis
  proof (cases "iter_recipients e a")
    case (Inl x)
    with Inr ce ns show ?thesis
      by (simp add: send_messages_def final_state_def log_def init_state_def)
  next
    case rc: (Inr rcps)
    let ?st0 = "log evs init_state"
    have "set (smtp_recipients (trace ?st0)) \<subseteq> seen ?st0" "distinct (smtp_recipients (trace ?st0))"
      using ns by (simp_all add: log_def init_state_def)
    note rl = run_loop_recipients[OF this, of e a c rcps]
    show ?thesis
    proof (cases "run_loop e a c rcps ?st0")
      case (Inl xs)
      with rl Inr ce rc show ?thesis
        by (simp add: send_messages_def final_state_def split: prod.splits)
    next
      case (Inr st)
      with rl have "distinct (smtp_recipients (trace st))" by (simp add: final_state_def)
      then have "distinct (smtp_recipients (trace (finish a st)))"
        by (simp add: finish_def log_def smtp_recipients_def)
      with Inr \<open>startup e a = Inr ce\<close> ce rc show ?thesis
        by (simp add: send_messages_def final_state_def)
    qed
  qed
qed


lemma seen_after_occurrence:
  assumes "is_valid_email x" "run_loop e a c (pre @ [(Some x, nm, r)] @ mid) st = Inr st'"
  shows "x \<in> seen st'"
proof -
  have "Some x \<in> fst ` set (pre @ [(Some x, nm, r)] @ mid)" by force
  with run_loop_seen[OF assms(2)] assms(1) show ?thesis by blast
qed

text \<open>
  Claim C2, as stated, fails on the code: in a CSV run whose two rows hold the same
  address \<open>bad\<close>, no occurrence gets past the deduplication gate (the seen set stays
  empty) and the second occurrence is skipped as invalid, not as a duplicate.
\<close>

theorem C2_counterexample:
  "send_messages invalid_twice_env (default_args\<lparr>csv := Some ''twice.csv'', dry_run := True\<rparr>) =
     Inr \<lparr>total = 2, sent = 0, skipped = 2, seen = {},
          trace = [LogDryRunMode, LogInvalid (Some ''bad''), LogInvalid (Some ''bad''), LogDone 2 0 2]\<rparr>"
  by code_simp

text \<open>
  Claim C2, amended: when the same valid address appears in two records of a run, the
  first occurrence is the one processed past the deduplication gate (it is not in the
  seen set, and goes on to the consent gate and delivery); every later occurrence the
  loop reaches finds the address in the seen set and is skipped as a duplicate, whatever
  its row says about consent; and in every run, however it ends, no address is handed to
  the transport more than once.
\<close>

theorem C2_dedup:
  "(is_valid_email x \<and> x \<notin> seen st \<and> Some x \<notin> fst ` set pre \<and> run_loop e a c pre st = Inr sa \<longrightarrow>
      x \<notin> seen sa \<and>
      process_one e a c (Some x, na, ra) sa =
        (if require_consent a \<and> truthy (csv a) \<and> consent_value a ra \<notin> {''1'', ''true'', ''yes'', ''y''}
         then Inr (skip (LogNoConsent x) (sa\<lparr>total := total sa + 1, seen := insert x (seen sa)\<rparr>))
         else deliver e a c (total sa) x na ra (sa\<lparr>total := total sa + 1, seen := insert x (seen sa)\<rparr>))) \<and>
   (is_valid_email x \<and> run_loop e a c (pre @ [(Some x, na, ra)] @ mid) st = Inr sb \<longrightarrow>
      x \<in> seen sb \<and>
      process_one e a c (Some x, nb, rb) sb =
        Inr (skip (LogDuplicate x) (sb\<lparr>total := total sb + 1\<rparr>))) \<and>
   distinct (smtp_recipients (trace (final_state (send_messages e a))))"
proof (intro conjI impI)
  assume h: "is_valid_email x \<and> x \<notin> seen st \<and> Some x \<notin> fst ` set pre \<and> run_loop e a c pre st = Inr sa"
  then have "seen sa = seen st \<union> {y. is_valid_email y \<and> Some y \<in> fst ` set pre}"
    using run_loop_seen by blast
  with h show n: "x \<notin> seen sa" by blast
  from h n show "process_one e a c (Some x, na, ra) sa =
        (if require_consent a \<and> truthy (csv a) \<and> consent_value a ra \<notin> {''1'', ''true'', ''yes'', ''y''}
         then Inr (skip (LogNoConsent x) (sa\<lparr>total := total sa + 1, seen := insert x (seen sa)\<rparr>))
         else deliver e a c (total sa) x na ra (sa\<lparr>total := total sa + 1, seen := insert x (seen sa)\<rparr>))"
    using process_one_fresh[of x sa e a c na ra] by (simp only: simp_thms)
next
  assume h: "is_valid_email x \<and> run_loop e a c (pre @ [(Some x, na, ra)] @ mid) st = Inr sb"
  then show s: "x \<in> seen sb" using seen_after_occurrence by blast
  from h s show "process_one e a c (Some x, nb, rb) sb =
        Inr (skip (LogDuplicate x) (sb\<lparr>total := total sb + 1\<rparr>))"
    using process_one_duplicate by blast
next
  show "distinct (smtp_recipients (trace (final_state (send_messages e a))))"
    by (rule send_messages_distinct)
qed


theorem C2_dedup_witness:
  "is_valid_email ''cy@example.com'' \<and> ''cy@example.com'' \<notin> seen init_state \<and>
   run_loop example_env (live_args\<lparr>csv := Some ''list.csv''\<rparr>) example_conf
      ([] @ [(Some ''cy@example.com'', ''Cy'', [(''consent'', ''no'')])] @ []) init_state =
     Inr (skip (LogNoConsent ''cy@example.com'') (init_state\<lparr>total := 1, seen := {''cy@example.com''}\<rparr>)) \<and>
   process_one example_env (live_args\<lparr>csv := Some ''list.csv''\<rparr>) example_conf
      (Some ''cy@example.com'', ''Cy'', [(''consent'', ''yes'')])
      (skip (LogNoConsent ''cy@example.com'') (init_state\<lparr>total := 1, seen := {''cy@example.com''}\<rparr>)) =
     Inr (skip (LogDuplicate ''cy@example.com'')
            (skip (LogNoConsent ''cy@example.com'') (init_state\<lparr>total := 2, seen := {''cy@example.com''}\<rparr>)))"
proof -
  let ?a = "live_args\<lparr>csv := Some ''list.csv''\<rparr>"
  let ?x = "''cy@example.com''"
  let ?s2 = "skip (LogNoConsent ?x) (init_state\<lparr>total := 1, seen := {?x}\<rparr>)"
  have v: "is_valid_email ?x" by (simp add: email_eval)
  have n: "?x \<notin> seen init_state" by (simp add: init_state_def)
  have e0: "run_loop example_env ?a example_conf [] init_state = Inr init_state" by simp
  have g: "require_consent ?a \<and> truthy (csv ?a) \<and>
           consent_value ?a [(''consent'', ''no'')] \<notin> {''1'', ''true'', ''yes'', ''y''}"
    by code_simp
  note w = C2_dedup [where x = ?x and st = init_state and pre = "[]" and sa = init_state
                       and e = example_env and a = ?a and c = example_conf
                       and na = "''Cy''" and ra = "[(''consent'', ''no'')]" and mid = "[]"
                       and sb = ?s2 and nb = "''Cy''" and rb = "[(''consent'', ''yes'')]"]
  have p1: "process_one example_env ?a example_conf (Some ?x, ''Cy'', [(''consent'', ''no'')]) init_state = Inr ?s2"
    using w [THEN conjunct1] v n e0 g by (simp add: init_state_def)
  then have r: "run_loop example_env ?a example_conf ([] @ [(Some ?x, ''Cy'', [(''consent'', ''no'')])] @ []) init_state = Inr ?s2"
    by simp
  have p2: "process_one example_env ?a example_conf (Some ?x, ''Cy'', [(''consent'', ''yes'')]) ?s2 =
              Inr (skip (LogDuplicate ?x) (skip (LogNoConsent ?x) (init_state\<lparr>total := 2, seen := {?x}\<rparr>)))"
    using w [THEN conjunct2, THEN conjunct1] v r by (simp add: skip_def init_state_def)
  from v n r p2 show ?thesis by (simp only: simp_thms)
qed

lemma run_loop_seen_valid:
  assumes "\<forall>x\<in>seen st. is_valid_email x"
  shows "\<forall>x\<in>seen (final_state (run_loop e a c rcps st)). is_valid_email x"
  using assms
proof (induction rcps arbitrary: st)
  case Nil
  then show ?case by (simp add: final_state_def)
next
  case (Cons rcp rcps)
  obtain ea nm r where rcp: "rcp = (ea, nm, r)" by (cases rcp)
  have p: "\<forall>x\<in>seen (final_state (process_one e a c rcp st)). is_valid_email x"
    unfolding rcp process_one_seen using Cons.prems by blast
  show ?case
  proof (cases "process_one e a c rcp st")
    case (Inl xs)
    with p show ?thesis by (simp add: final_state_def)
  next
    case (Inr st1)
    with p have "\<forall>x\<in>seen st1. is_valid_email x" by (simp add: final_state_def)
    from Cons.IH[OF this] Inr show ?thesis by simp
  qed
qed

lemma send_messages_seen_valid:
  "\<forall>x\<in>seen (final_state (send_messages e a)). is_valid_email x"
proof (cases "startup e a")
  case (Inl xe)
  then show ?thesis
    by (simp add: send_messages_def final_state_def log_def init_state_def split: prod.splits)
next
  case (Inr ce)
  obtain c evs where ce: "ce = (c, evs)" by (cases ce)
  show ?thesis
  proof (cases "iter_recipients e a")
    case (Inl x)
    with Inr ce show ?thesis
      by (simp add: send_messages_def final_state_def log_def init_state_def)
  next
    case rc: (Inr rcps)
    have "\<forall>x\<in>seen (log evs init_state). is_valid_email x" by (simp add: log_def init_state_def)
    note rl = run_loop_seen_valid[OF this, of e a c rcps]
    show ?thesis
    proof (cases "run_loop e a c rcps (log evs init_state)")
      case (Inl xs)
      with rl Inr ce rc show ?thesis
        by (simp add: send_messages_def final_state_def split: prod.splits)
    next
      case st: (Inr st)
      with rl have "\<forall>x\<in>seen (finish a st). is_valid_email x"
        by (simp add: final_state_def finish_def log_def)
      with st Inr ce rc show ?thesis
        by (simp add: send_messages_def final_state_def)
    qed
  qed
qed

lemma skipped_later_is_valid:
  assumes "process_one e a c (Some x, nm, r) st = Inr sa"
      and "last (trace sa) = LogNoConsent x \<or> last (trace sa) = LogSendFailed x"
  shows "is_valid_email x"
proof (rule ccontr)
  assume "\<not> is_valid_email x"
  with assms(1) have "sa = skip (LogInvalid (Some x)) (st\<lparr>total := total st + 1\<rparr>)"
    by (simp add: process_one_invalid)
  then have "last (trace sa) = LogInvalid (Some x)" by (simp add: skip_def)
  with assms(2) show False by simp
qed

text \<open>
  Claim C9: the seen set after the records processed so far is the set it started from
  plus the addresses among them that pass validation, so in every run, however it ends,
  every address in the seen set is a valid one, added when it first occurred. A record
  whose address fails validation is skipped as invalid whatever the seen set holds, at
  every occurrence. A record skipped for missing consent or for a failed send has left
  its address in the seen set, and every later occurrence the loop reaches is skipped as
  a duplicate.
\<close>

theorem C9_seen_set:
  "(run_loop e a c rcps st = Inr st' \<longrightarrow>
      seen st' = seen st \<union> {x. is_valid_email x \<and> Some x \<in> fst ` set rcps}) \<and>
   (\<forall>x\<in>seen (final_state (send_messages e a)). is_valid_email x) \<and>
   (\<not> is_valid_email y \<longrightarrow>
      process_one e a c (Some y, nm, r) st =
        Inr (skip (LogInvalid (Some y)) (st\<lparr>total := total st + 1\<rparr>))) \<and>
   (process_one e a c (Some z, nm, r) st = Inr sa \<and>
    (last (trace sa) = LogNoConsent z \<or> last (trace sa) = LogSendFailed z) \<and>
    run_loop e a c rest sa = Inr sb \<longrightarrow>
      z \<in> seen sa \<and> z \<in> seen sb \<and>
      process_one e a c (Some z, nb, rb) sb =
        Inr (skip (LogDuplicate z) (sb\<lparr>total := total sb + 1\<rparr>)))"
proof (intro conjI impI)
  assume "run_loop e a c rcps st = Inr st'"
  then show "seen st' = seen st \<union> {x. is_valid_email x \<and> Some x \<in> fst ` set rcps}"
    by (rule run_loop_seen)
next
  show "\<forall>x\<in>seen (final_state (send_messages e a)). is_valid_email x"
    by (rule send_messages_seen_valid)
next
  assume "\<not> is_valid_email y"
  then show "process_one e a c (Some y, nm, r) st =
        Inr (skip (LogInvalid (Some y)) (st\<lparr>total := total st + 1\<rparr>))"
    by (rule process_one_invalid)
next
  assume h: "process_one e a c (Some z, nm, r) st = Inr sa \<and>
    (last (trace sa) = LogNoConsent z \<or> last (trace sa) = LogSendFailed z) \<and>
    run_loop e a c rest sa = Inr sb"
  then have v: "is_valid_email z" using skipped_later_is_valid by blast
  from h have "seen (final_state (process_one e a c (Some z, nm, r) st)) = seen sa"
    by (simp add: final_state_def)
  with v show a: "z \<in> seen sa" unfolding process_one_seen by blast
  from h run_loop_seen[of e a c rest sa sb] a show b: "z \<in> seen sb" by blast
  from v b show "process_one e a c (Some z, nb, rb) sb =
        Inr (skip (LogDuplicate z) (sb\<lparr>total := total sb + 1\<rparr>))"
    by (rule process_one_duplicate)
qed


theorem C9_seen_set_witness:
  "\<not> is_valid_email ''bad'' \<and>
   process_one refusing_env live_args example_conf (Some ''bad'', ''Bob'', []) init_state =
     Inr (skip (LogInvalid (Some ''bad'')) (init_state\<lparr>total := 1\<rparr>)) \<and>
   \<not> isl (process_one refusing_env live_args example_conf (Some ''ann@example.com'', ''Ann'', []) init_state) \<and>
   last (trace (final_state (process_one refusing_env live_args example_conf
                   (Some ''ann@example.com'', ''Ann'', []) init_state))) = LogSendFailed ''ann@example.com'' \<and>
   ''ann@example.com'' \<in> seen (final_state (process_one refusing_env live_args example_conf
                   (Some ''ann@example.com'', ''Ann'', []) init_state)) \<and>
   isl (process_one refusing_env live_args example_conf (Some ''ann@example.com'', ''Ann again'', [])
          (final_state (process_one refusing_env live_args example_conf
                   (Some ''ann@example.com'', ''Ann'', []) init_state))) = False \<and>
   last (trace (final_state (process_one refusing_env live_args example_conf (Some ''ann@example.com'', ''Ann again'', [])
          (final_state (process_one refusing_env live_args example_conf
                   (Some ''ann@example.com'', ''Ann'', []) init_state))))) = LogDuplicate ''ann@example.com''"
proof -
  let ?x = "''ann@example.com''"
  let ?p = "process_one refusing_env live_args example_conf (Some ?x, ''Ann'', []) init_state"
  let ?sa = "final_state ?p"
  have i: "\<not> is_valid_email ''bad''" by (simp add: email_eval)
  note w = C9_seen_set [where e = refusing_env and a = live_args and c = example_conf]
  have b: "process_one refusing_env live_args example_conf (Some ''bad'', ''Bob'', []) init_state =
             Inr (skip (LogInvalid (Some ''bad'')) (init_state\<lparr>total := 1\<rparr>))"
    using w [where y = "''bad''" and nm = "''Bob''" and r = "[]" and st = init_state,
             THEN conjunct2, THEN conjunct2, THEN conjunct1] i
    by (simp add: init_state_def)
  have n: "\<not> isl ?p" by code_simp
  then have p: "?p = Inr ?sa" by (cases ?p) (simp_all add: final_state_def)
  have l: "last (trace ?sa) = LogSendFailed ?x" by code_simp
  have r: "run_loop refusing_env live_args example_conf [] ?sa = Inr ?sa" by simp
  note d = w [where z = ?x and nm = "''Ann''" and r = "[]" and st = init_state and sa = ?sa
                and rest = "[]" and sb = ?sa and nb = "''Ann again''" and rb = "[]",
              THEN conjunct2, THEN conjunct2, THEN conjunct2]
  from d p l r have s: "?x \<in> seen ?sa"
    and q: "process_one refusing_env live_args example_conf (Some ?x, ''Ann again'', []) ?sa =
              Inr (skip (LogDuplicate ?x) (?sa\<lparr>total := total ?sa + 1\<rparr>))"
    by blast+
  have q1: "isl (process_one refusing_env live_args example_conf (Some ?x, ''Ann again'', []) ?sa) = False"
    unfolding q by simp
  have q2: "last (trace (final_state (process_one refusing_env live_args example_conf
              (Some ?x, ''Ann again'', []) ?sa))) = LogDuplicate ?x"
    unfolding q by (simp add: final_state_def skip_def)
  from i b n l s q1 q2 show ?thesis by (simp only: simp_thms)
qed

section \<open>Pacing\<close>












lemma startup_conf: "startup e a = Inr (c, evs) \<Longrightarrow> c_rate_delay c = rate_delay_of a"
  by (auto simp: startup_def Let_def split: sum.splits if_splits prod.splits)








section \<open>The tally\<close>

lemma dispatch_tally:
  assumes "dry_run a \<or> \<not> 0 < c_rate_delay c \<or> time_sleep e (c_rate_delay c) = None"
  shows "sent (dispatch e a c n addr m st) + skipped (dispatch e a c n addr m st) =
           sent st + skipped st + 1"
  using assms by (auto simp: dispatch_def skip_def log_def Let_def split: option.splits)

lemma deliver_tally:
  assumes "dry_run a \<or> \<not> 0 < c_rate_delay c \<or> time_sleep e (c_rate_delay c) = None"
      and "deliver e a c n addr nm r st = Inr st'"
  shows "sent st' + skipped st' = sent st + skipped st + 1"
proof -
  from deliver_Inr[OF assms(2)] obtain m lg where
    st': "st' = dispatch e a c n addr m (log (lg @ save_eml e n addr (save_eml_dir a) m) st)"
    by blast
  show ?thesis unfolding st' dispatch_tally[OF assms(1)] by (simp add: log_def)
qed

lemma process_one_total:
  "process_one e a c rcp st = Inr st' \<Longrightarrow> total st' = total st + 1"
proof -
  assume p: "process_one e a c rcp st = Inr st'"
  obtain ea nm r where rcp: "rcp = (ea, nm, r)" by (cases rcp)
  have "total (final_state (process_one e a c rcp st)) = total st + 1"
    unfolding rcp
    by (cases ea)
       (auto simp: process_one_def Let_def skip_def final_state_def[of "Inr _"] deliver_fields)
  with p show ?thesis by (simp add: final_state_def)
qed

lemma process_one_tally:
  assumes "dry_run a \<or> \<not> 0 < c_rate_delay c \<or> time_sleep e (c_rate_delay c) = None"
      and "process_one e a c rcp st = Inr st'"
  shows "sent st' + skipped st' = sent st + skipped st + 1"
proof -
  obtain ea nm r where rcp: "rcp = (ea, nm, r)" by (cases rcp)
  show ?thesis
  proof (cases ea)
    case None
    with assms(2) rcp show ?thesis by (auto simp: process_one_None skip_def)
  next
    case (Some x)
    show ?thesis
    proof (cases "is_valid_email x")
      case False
      with assms(2) rcp Some show ?thesis by (auto simp: process_one_invalid skip_def)
    next
      case True
      show ?thesis
      proof (cases "x \<in> seen st")
        case True
        with \<open>is_valid_email x\<close> assms(2) rcp Some show ?thesis
          by (auto simp: process_one_duplicate skip_def)
      next
        case False
        let ?st2 = "st\<lparr>total := total st + 1, seen := insert x (seen st)\<rparr>"
        show ?thesis
        proof (cases "require_consent a \<and> truthy (csv a) \<and> consent_value a r \<notin> {''1'', ''true'', ''yes'', ''y''}")
          case True
          have "process_one e a c rcp st = Inr (skip (LogNoConsent x) ?st2)"
            unfolding rcp Some process_one_fresh[OF \<open>is_valid_email x\<close> False] using True
            by (simp only: if_True simp_thms)
          with assms(2) show ?thesis by (auto simp: skip_def)
        next
          case nogate: False
          have "process_one e a c rcp st = deliver e a c (total st) x nm r ?st2"
            unfolding rcp Some process_one_fresh[OF \<open>is_valid_email x\<close> False] using nogate
            by (simp only: if_False)
          with assms(2) deliver_tally[OF assms(1), of "total st" x nm r ?st2 st'] show ?thesis
            by simp
        qed
      qed
    qed
  qed
qed

lemma run_loop_tally:
  assumes "dry_run a \<or> \<not> 0 < c_rate_delay c \<or> time_sleep e (c_rate_delay c) = None"
      and "run_loop e a c rcps st = Inr st'"
  shows "sent st' + skipped st' + total st = sent st + skipped st + total st'"
  using assms(2)
proof (induction rcps arbitrary: st)
  case Nil
  then show ?case by simp
next
  case (Cons rcp rcps)
  then obtain st1 where 1: "process_one e a c rcp st = Inr st1" and 2: "run_loop e a c rcps st1 = Inr st'"
    by (auto split: sum.splits)
  from process_one_tally[OF assms(1) 1] process_one_total[OF 1] Cons.IH[OF 2]
  show ?case by simp
qed

text \<open>The tally adds up whenever the call of \<open>time.sleep\<close> returns, or is not made.\<close>

lemma tally_when_sleep_returns:
  assumes "dry_run a \<or> \<not> 0 < rate_delay_of a \<or> time_sleep e (rate_delay_of a) = None"
      and "send_messages e a = Inr st"
  shows "sent st + skipped st = total st"
proof -
  from assms(2) obtain c evs rcps st1 where s: "startup e a = Inr (c, evs)"
    and i: "iter_recipients e a = Inr rcps"
    and r: "run_loop e a c rcps (log evs init_state) = Inr st1"
    and f: "st = finish a st1"
    by (auto simp: send_messages_def split: sum.splits prod.splits)
  from s have d: "c_rate_delay c = rate_delay_of a" by (rule startup_conf)
  from run_loop_tally[OF _ r] assms(1) d
  have "sent st1 + skipped st1 = total st1" by (simp add: log_def init_state_def)
  with f show ?thesis by (simp add: finish_def log_def)
qed

text \<open>
  Claim C1 on the code: a live run for one recipient with \<open>--rate-per-minute 1e-9\<close>.
  The send succeeds and is counted as sent; the delay of \<open>6e10\<close> seconds is beyond what
  \<open>time.sleep\<close> accepts, its \<open>OverflowError\<close> is caught by the handler meant for the
  transport, and the same recipient is counted as skipped too. The run completes with
  total 1, sent 1, skipped 1.
\<close>

theorem C1_tally_double_count:
  "\<not> isl (send_messages example_env slow_args) \<and>
   tally (final_state (send_messages example_env slow_args)) = (1, 1, 1)"
  by code_simp

end
